theory Spec2Isabelle
  imports Main "HOL-Library.Word"
begin

unbundle bit_operations_syntax

section \<open>Heap building blocks (include/Galois/Runtime/mm/Mem.h)\<close>

text \<open>
  The C++ types are read on an LP64 target: a pointer and a \<open>size_t\<close> are 64-bit
  words, an \<open>int\<close> is a 32-bit word, \<open>sizeof(double) = 8\<close>.  The null pointer is
  the address 0.  An \<open>int\<close> that takes part in \<open>size_t\<close> arithmetic is sign-extended
  (\<open>scast\<close>), a \<open>size_t\<close> stored into an \<open>int\<close> is truncated (\<open>ucast\<close>).
\<close>

type_synonym addr = "64 word"
type_synonym size_t = "64 word"
type_synonym cint = "32 word"

text \<open>
  Every way in which a call can end without a result is a value:
  \<open>BadAlloc\<close> is the \<open>throw std::bad_alloc()\<close> of the bump pointer,
  \<open>OutOfMemory\<close> the failure of the page source, \<open>AssertionFailed\<close> an \<open>assert\<close>
  that does not hold, \<open>NullDeref\<close> a store or load through the null pointer, and
  \<open>Deadlock\<close> a spin on a lock that the calling thread holds itself.
\<close>

datatype error = BadAlloc | OutOfMemory | AssertionFailed | NullDeref | Deadlock

subsection \<open>The process-wide state: page source and system allocator\<close>

text \<open>
  Modelled from the spec: \<open>pageAlloc\<close> and \<open>pageFree\<close> are only declared in Mem.h.
  The page source keeps a process-global freelist of pages; \<open>pageAlloc\<close> pops the
  freelist when it is non-empty and otherwise requests one page from the operating
  system, \<open>pageFree\<close> pushes onto the freelist and never returns a page to the
  system; a rejected request is \<open>OutOfMemory\<close>; the pages allocated in total are
  counted.  The operating system is the list \<open>os_grants\<close> of the pages it will still
  hand out, in order; the empty list is a system that rejects the request.

  \<open>malloc\<close> and \<open>free\<close> belong to the C library: \<open>malloc_grants\<close> lists the blocks
  \<open>malloc\<close> will return, in order, and \<open>malloc\<close> returns null once it is empty.
\<close>

record sys =
  page_freelist :: "addr list"
  os_grants :: "addr list"
  numPageAllocTotal :: nat
  malloc_grants :: "addr list"

definition pageAlloc :: "sys \<Rightarrow> error + (addr \<times> sys)" where
  "pageAlloc g =
     (case page_freelist g of
        p # ps \<Rightarrow> Inr (p, g\<lparr>page_freelist := ps\<rparr>)
      | [] \<Rightarrow>
         (case os_grants g of
            [] \<Rightarrow> Inl OutOfMemory
          | p # ps \<Rightarrow> Inr (p, g\<lparr>os_grants := ps, numPageAllocTotal := numPageAllocTotal g + 1\<rparr>)))"

definition pageFree :: "sys \<Rightarrow> addr \<Rightarrow> sys" where
  "pageFree g p = g\<lparr>page_freelist := p # page_freelist g\<rparr>"

definition malloc :: "sys \<Rightarrow> size_t \<Rightarrow> addr \<times> sys" where
  "malloc g n =
     (case malloc_grants g of
        [] \<Rightarrow> (0, g)
      | p # ps \<Rightarrow> (p, g\<lparr>malloc_grants := ps\<rparr>))"

definition free :: "sys \<Rightarrow> addr \<Rightarrow> sys" where
  "free g p = g"

subsection \<open>The heap interface\<close>

text \<open>
  Every heap class has the enum constant \<open>AllocSize\<close> and the member functions
  \<open>allocate(size)\<close> and \<open>deallocate(ptr, len)\<close>.  A heap layer is a class template
  over its \<open>SourceHeap\<close>, from which it inherits: here a function from the source's
  interface to the layer's own, on a state that holds the layer's fields and the
  source's state.  Every call also takes and returns the process-wide state.
\<close>

record 'h heap =
  AllocSize :: size_t
  allocate :: "'h \<times> sys \<Rightarrow> size_t \<Rightarrow> error + (addr \<times> 'h \<times> sys)"
  deallocate :: "'h \<times> sys \<Rightarrow> addr \<Rightarrow> size_t \<Rightarrow> error + ('h \<times> sys)"

subsubsection \<open>MallocHeap\<close>

definition MallocHeap :: "unit heap" where
  "MallocHeap =
     \<lparr>AllocSize = 0,
      allocate = (\<lambda>(h, g) size. case malloc g size of (p, g') \<Rightarrow> Inr (p, h, g')),
      deallocate = (\<lambda>(h, g) ptr len. Inr (h, free g ptr))\<rparr>"

subsubsection \<open>SystemBaseAlloc, the page source as a heap\<close>

text \<open>
  \<open>SystemBaseAlloc\<close> has \<open>AllocSize = hugePageSize\<close>; \<open>PageHeap\<close> is the same
  class with the page size as a parameter.
\<close>

definition hugePageSize :: size_t where
  "hugePageSize = 2 * 1024 * 1024"

definition PageHeap :: "size_t \<Rightarrow> unit heap" where
  "PageHeap pgsz =
     \<lparr>AllocSize = pgsz,
      allocate = (\<lambda>(h, g) size. case pageAlloc g of Inl e \<Rightarrow> Inl e | Inr (p, g') \<Rightarrow> Inr (p, h, g')),
      deallocate = (\<lambda>(h, g) ptr len. Inr (h, pageFree g ptr))\<rparr>"

definition SystemBaseAlloc :: "unit heap" where
  "SystemBaseAlloc = PageHeap hugePageSize"

subsubsection \<open>ThreadAwarePrivateHeap\<close>

text \<open>
  \<open>PerThreadStorage\<close> is not part of the sources at hand: it is a table of one
  \<open>LocalHeap\<close> per thread, and \<open>getLocal()\<close> is the entry of the calling thread
  \<open>tid\<close>.
\<close>

definition ThreadAwarePrivateHeap :: "nat \<Rightarrow> 'h heap \<Rightarrow> (nat \<Rightarrow> 'h) heap" where
  "ThreadAwarePrivateHeap tid L =
     \<lparr>AllocSize = AllocSize L,
      allocate = (\<lambda>(heaps, g) size.
         case allocate L (heaps tid, g) size of
           Inl e \<Rightarrow> Inl e
         | Inr (p, h', g') \<Rightarrow> Inr (p, heaps(tid := h'), g')),
      deallocate = (\<lambda>(heaps, g) ptr len.
         case deallocate L (heaps tid, g) ptr len of
           Inl e \<Rightarrow> Inl e
         | Inr (h', g') \<Rightarrow> Inr (heaps(tid := h'), g'))\<rparr>"

subsubsection \<open>LockedHeap\<close>



subsubsection \<open>ZeroOut\<close>




subsubsection \<open>AddHeader and OwnerTaggedHeap\<close>







subsubsection \<open>FreeListHeap\<close>

text \<open>
  The freelist is intrusive: the \<open>next\<close> field of a \<open>FreeNode\<close> lies in the freed
  block itself.  \<open>fl_next\<close> maps the address of a block to the content of that field,
  so that a block freed twice makes the cycle it makes in memory.
\<close>

record 'h FreeListHeap =
  fl_head :: addr
  fl_next :: "addr \<Rightarrow> addr"
  fl_src :: 'h

definition FreeListHeap_allocate ::
  "'h heap \<Rightarrow> 'h FreeListHeap \<times> sys \<Rightarrow> size_t \<Rightarrow> error + (addr \<times> 'h FreeListHeap \<times> sys)" where
  "FreeListHeap_allocate S = (\<lambda>(f, g) size.
     if fl_head f \<noteq> 0 then Inr (fl_head f, f\<lparr>fl_head := fl_next f (fl_head f)\<rparr>, g)
     else case allocate S (fl_src f, g) size of
            Inl e \<Rightarrow> Inl e
          | Inr (p, h', g') \<Rightarrow> Inr (p, f\<lparr>fl_src := h'\<rparr>, g'))"

definition FreeListHeap_deallocate ::
  "'h heap \<Rightarrow> 'h FreeListHeap \<times> sys \<Rightarrow> addr \<Rightarrow> size_t \<Rightarrow> error + ('h FreeListHeap \<times> sys)" where
  "FreeListHeap_deallocate S = (\<lambda>(f, g) ptr len.
     if ptr = 0 then Inr (f, g)
     else if \<not> (ptr > 0x100) then Inl AssertionFailed
     else Inr (f\<lparr>fl_next := (fl_next f)(ptr := fl_head f), fl_head := ptr\<rparr>, g))"

definition FreeListHeap :: "'h heap \<Rightarrow> 'h FreeListHeap heap" where
  "FreeListHeap S =
     \<lparr>AllocSize = AllocSize S,
      allocate = FreeListHeap_allocate S,
      deallocate = FreeListHeap_deallocate S\<rparr>"

text \<open>
  \<open>clear()\<close> walks the list and hands every block to the source heap.  On a cyclic
  list the loop does not end: the result \<open>None\<close>.
\<close>

partial_function (option) FreeListHeap_clear ::
  "'h heap \<Rightarrow> 'h FreeListHeap \<times> sys \<Rightarrow> (error + ('h FreeListHeap \<times> sys)) option" where
  "FreeListHeap_clear S s =
     (if fl_head (fst s) = 0 then Some (Inr s)
      else case deallocate S (fl_src (fst s), snd s) (fl_head (fst s)) 1 of
             Inl e \<Rightarrow> Some (Inl e)
           | Inr (h', g') \<Rightarrow>
               FreeListHeap_clear S ((fst s)\<lparr>fl_head := fl_next (fst s) (fl_head (fst s)), fl_src := h'\<rparr>, g'))"

definition FreeListHeap_init :: "(addr \<Rightarrow> addr) \<Rightarrow> 'h \<Rightarrow> 'h FreeListHeap" where
  "FreeListHeap_init mem h = \<lparr>fl_head = 0, fl_next = mem, fl_src = h\<rparr>"

subsubsection \<open>SelfLockFreeListHeap\<close>

text \<open>
  The same list with compare-and-swap.  With one thread running, a
  \<open>__sync_bool_compare_and_swap(&head, h, n)\<close> that follows the read \<open>h = head\<close>
  succeeds at once, so each \<open>do ... while\<close> loop runs its body once; the static lock
  of \<open>allocate\<close> is taken at entry and released on every path before the call
  returns or delegates.
\<close>

definition SelfLockFreeListHeap_allocate ::
  "'h heap \<Rightarrow> 'h FreeListHeap \<times> sys \<Rightarrow> size_t \<Rightarrow> error + (addr \<times> 'h FreeListHeap \<times> sys)" where
  "SelfLockFreeListHeap_allocate S = (\<lambda>(f, g) size.
     let OH = fl_head f in
     if OH = 0 then
       (case allocate S (fl_src f, g) size of
          Inl e \<Rightarrow> Inl e
        | Inr (p, h', g') \<Rightarrow> Inr (p, f\<lparr>fl_src := h'\<rparr>, g'))
     else
       let NH = fl_next f OH in
       if OH = 0 then Inl AssertionFailed else Inr (OH, f\<lparr>fl_head := NH\<rparr>, g))"

definition SelfLockFreeListHeap_deallocate ::
  "'h heap \<Rightarrow> 'h FreeListHeap \<times> sys \<Rightarrow> addr \<Rightarrow> size_t \<Rightarrow> error + ('h FreeListHeap \<times> sys)" where
  "SelfLockFreeListHeap_deallocate S = (\<lambda>(f, g) ptr len.
     if ptr = 0 then Inr (f, g)
     else let OH = fl_head f; NH = ptr in
          Inr (f\<lparr>fl_next := (fl_next f)(NH := OH), fl_head := NH\<rparr>, g))"

definition SelfLockFreeListHeap :: "'h heap \<Rightarrow> 'h FreeListHeap heap" where
  "SelfLockFreeListHeap S =
     \<lparr>AllocSize = AllocSize S,
      allocate = SelfLockFreeListHeap_allocate S,
      deallocate = SelfLockFreeListHeap_deallocate S\<rparr>"

subsubsection \<open>BlockAlloc\<close>

text \<open>
  \<open>ElemSize\<close> is the \<open>unsigned\<close> template parameter.  \<open>sizeof(TyEq)\<close> is \<open>ElemSize\<close>
  rounded up to a multiple of 8; a page is a \<open>Block\<close>: the \<open>next\<close> link (8 bytes)
  and then \<open>TotalFit\<close> slots \<open>data[i]\<close>.  The enum constants are computed in
  \<open>size_t\<close>, as \<open>sizeof\<close> makes them.
\<close>

definition sizeof_TyEq :: "32 word \<Rightarrow> size_t" where
  "sizeof_TyEq ElemSize = ((ucast ElemSize + 8 - 1) AND NOT (8 - 1)) div 8 * 8"

definition TotalFit :: "32 word \<Rightarrow> size_t \<Rightarrow> size_t" where
  "TotalFit ElemSize srcAllocSize =
     (let BytesLeft = srcAllocSize - (8 + sizeof_TyEq ElemSize);
          BytesLeftR = BytesLeft AND NOT (8 - 1);
          FitLeft = BytesLeftR div sizeof_TyEq ElemSize
      in FitLeft + 1)"

record 'h BlockAlloc =
  blk_head :: addr
  headIndex :: cint
  blk_next :: "addr \<Rightarrow> addr"
  blk_src :: 'h

definition BlockAlloc_refill ::
  "'h heap \<Rightarrow> 'h BlockAlloc \<times> sys \<Rightarrow> error + ('h BlockAlloc \<times> sys)" where
  "BlockAlloc_refill S = (\<lambda>(b, g).
     case allocate S (blk_src b, g) (AllocSize S) of
       Inl e \<Rightarrow> Inl e
     | Inr (P, h', g') \<Rightarrow>
         if P = 0 then Inl NullDeref
         else Inr (\<lparr>blk_head = P, headIndex = 0,
                    blk_next = (blk_next b)(P := blk_head b), blk_src = h'\<rparr>, g'))"

definition BlockAlloc_allocate ::
  "32 word \<Rightarrow> 'h heap \<Rightarrow> 'h BlockAlloc \<times> sys \<Rightarrow> size_t \<Rightarrow> error + (addr \<times> 'h BlockAlloc \<times> sys)" where
  "BlockAlloc_allocate ElemSize S = (\<lambda>(b, g) size.
     if size \<noteq> ucast ElemSize then Inl AssertionFailed
     else
       case (if blk_head b = 0 \<or> scast (headIndex b) = TotalFit ElemSize (AllocSize S)
             then BlockAlloc_refill S (b, g) else Inr (b, g)) of
         Inl e \<Rightarrow> Inl e
       | Inr (b', g') \<Rightarrow>
           Inr (blk_head b' + 8 + scast (headIndex b') * sizeof_TyEq ElemSize,
                b'\<lparr>headIndex := headIndex b' + 1\<rparr>, g'))"

definition BlockAlloc :: "32 word \<Rightarrow> 'h heap \<Rightarrow> 'h BlockAlloc heap" where
  "BlockAlloc ElemSize S =
     \<lparr>AllocSize = ucast ElemSize,
      allocate = BlockAlloc_allocate ElemSize S,
      deallocate = (\<lambda>s ptr len. Inr s)\<rparr>"

text \<open>The constructor: no page yet, and its assertion \<open>sizeof(Block) <= AllocSize\<close>.\<close>

definition BlockAlloc_init ::
  "32 word \<Rightarrow> 'h heap \<Rightarrow> (addr \<Rightarrow> addr) \<Rightarrow> 'h \<Rightarrow> error + 'h BlockAlloc" where
  "BlockAlloc_init ElemSize S mem h =
     (if 8 + TotalFit ElemSize (AllocSize S) * sizeof_TyEq ElemSize \<le> AllocSize S
      then Inr \<lparr>blk_head = 0, headIndex = 0, blk_next = mem, blk_src = h\<rparr>
      else Inl AssertionFailed)"

subsubsection \<open>SimpleBumpPtr\<close>

text \<open>
  \<open>sizeof(Block) = 8\<close>: the page header is the union of the \<open>next\<close> link and a
  \<open>double\<close>.  \<open>bp_next\<close> is the content of the \<open>next\<close> field of the pages.
\<close>

record 'h SimpleBumpPtr =
  bp_head :: addr
  bp_offset :: cint
  bp_next :: "addr \<Rightarrow> addr"
  bp_src :: 'h

definition alignedSize :: "size_t \<Rightarrow> size_t" where
  "alignedSize sz = (sz + 8 - 1) AND NOT (8 - 1)"

definition SimpleBumpPtr_refill ::
  "'h heap \<Rightarrow> 'h SimpleBumpPtr \<times> sys \<Rightarrow> error + ('h SimpleBumpPtr \<times> sys)" where
  "SimpleBumpPtr_refill S = (\<lambda>(b, g).
     case allocate S (bp_src b, g) (AllocSize S) of
       Inl e \<Rightarrow> Inl e
     | Inr (P, h', g') \<Rightarrow>
         if P = 0 then Inl NullDeref
         else Inr (\<lparr>bp_head = P, bp_offset = 8,
                    bp_next = (bp_next b)(P := bp_head b), bp_src = h'\<rparr>, g'))"

definition SimpleBumpPtr_allocate ::
  "'h heap \<Rightarrow> 'h SimpleBumpPtr \<times> sys \<Rightarrow> size_t \<Rightarrow> error + (addr \<times> 'h SimpleBumpPtr \<times> sys)" where
  "SimpleBumpPtr_allocate S = (\<lambda>(b, g) size.
     case (if bp_head b = 0 \<or> scast (bp_offset b) + alignedSize size > AllocSize S
           then SimpleBumpPtr_refill S (b, g) else Inr (b, g)) of
       Inl e \<Rightarrow> Inl e
     | Inr (b', g') \<Rightarrow>
         if scast (bp_offset b') + alignedSize size > AllocSize S then Inl BadAlloc
         else Inr (bp_head b' + scast (bp_offset b'),
                   b'\<lparr>bp_offset := ucast (scast (bp_offset b') + alignedSize size)\<rparr>, g'))"

text \<open>
  The overload \<open>allocate(size, allocated)\<close>: the result carries the value left in
  the reference parameter \<open>allocated\<close>.
\<close>

definition SimpleBumpPtr_allocate2 ::
  "'h heap \<Rightarrow> 'h SimpleBumpPtr \<times> sys \<Rightarrow> size_t
     \<Rightarrow> error + (addr \<times> size_t \<times> 'h SimpleBumpPtr \<times> sys)" where
  "SimpleBumpPtr_allocate2 S = (\<lambda>(b, g) size.
     let a0 = (if alignedSize size > AllocSize S then AllocSize S else alignedSize size) in
     case (if bp_head b = 0 \<or> scast (bp_offset b) + a0 > AllocSize S then
             (let remaining = AllocSize S - scast (bp_offset b) in
              if remaining AND (8 - 1) \<noteq> 0 then Inl AssertionFailed
              else if remaining = 0 then
                (case SimpleBumpPtr_refill S (b, g) of
                   Inl e \<Rightarrow> Inl e
                 | Inr (b', g') \<Rightarrow> Inr (a0, b', g'))
              else Inr (remaining, b, g))
           else Inr (a0, b, g)) of
       Inl e \<Rightarrow> Inl e
     | Inr (a, b', g') \<Rightarrow>
         Inr (bp_head b' + scast (bp_offset b'),
              (if a > size then size else a),
              b'\<lparr>bp_offset := ucast (scast (bp_offset b') + a)\<rparr>, g'))"

definition SimpleBumpPtr :: "'h heap \<Rightarrow> 'h SimpleBumpPtr heap" where
  "SimpleBumpPtr S =
     \<lparr>AllocSize = 0,
      allocate = SimpleBumpPtr_allocate S,
      deallocate = (\<lambda>s ptr len. Inr s)\<rparr>"

definition SimpleBumpPtr_init :: "(addr \<Rightarrow> addr) \<Rightarrow> 'h \<Rightarrow> 'h SimpleBumpPtr" where
  "SimpleBumpPtr_init mem h = \<lparr>bp_head = 0, bp_offset = 0, bp_next = mem, bp_src = h\<rparr>"

subsubsection \<open>SimpleBumpPtrWithMallocFallback\<close>




subsubsection \<open>The sized allocator\<close>

text \<open>
  \<open>SizedAllocatorFactory::SizedAlloc\<close> is
  \<open>ThreadAwarePrivateHeap<FreeListHeap<SimpleBumpPtr<SystemBaseAlloc>>>\<close>, and a
  \<open>FixedSizeAllocator\<close> forwards \<open>allocate\<close> and \<open>deallocate\<close> to the \<open>SizedAlloc\<close>
  that the factory gave it.
\<close>

type_synonym LocalAlloc = "unit SimpleBumpPtr FreeListHeap"

definition LocalAlloc :: "size_t \<Rightarrow> LocalAlloc heap" where
  "LocalAlloc pgsz = FreeListHeap (SimpleBumpPtr (PageHeap pgsz))"

definition SizedAlloc :: "nat \<Rightarrow> (nat \<Rightarrow> LocalAlloc) heap" where
  "SizedAlloc tid = ThreadAwarePrivateHeap tid (LocalAlloc hugePageSize)"

definition LocalAlloc_init :: "(addr \<Rightarrow> addr) \<Rightarrow> (addr \<Rightarrow> addr) \<Rightarrow> LocalAlloc" where
  "LocalAlloc_init m1 m2 = FreeListHeap_init m1 (SimpleBumpPtr_init m2 ())"

section \<open>The chunked worklist (Galois/WorkList/Chunked.h)\<close>

subsection \<open>Chunks and the containers of chunks\<close>

text \<open>
  Modelled from the spec: \<open>FixedSizeRing\<close> (Galois/FixedSizeRing.h) is not part of the
  sources at hand.  It is a fixed-capacity ring of task values with the operations
  \<open>empty\<close>, \<open>full\<close>, \<open>emplace_back\<close> (a pointer to the slot, null on a full ring),
  \<open>extract_front\<close> and \<open>extract_back\<close> (an optional value, absent on an empty
  ring).  The ring is its content, oldest value first, and the capacity is the
  template parameter \<open>ChunkSize\<close>.  A \<open>Chunk\<close> is a ring at the address that
  \<open>mkChunk\<close> got from the heap; a chunk pointer is \<open>None\<close> when it is null.
\<close>

record 'a Chunk =
  c_addr :: addr
  c_items :: "'a list"

definition ring_empty :: "'a Chunk \<Rightarrow> bool" where
  "ring_empty C = (c_items C = [])"

definition ring_full :: "nat \<Rightarrow> 'a Chunk \<Rightarrow> bool" where
  "ring_full ChunkSize C = (length (c_items C) \<ge> ChunkSize)"

definition emplace_back :: "nat \<Rightarrow> 'a Chunk \<Rightarrow> 'a \<Rightarrow> 'a Chunk option" where
  "emplace_back ChunkSize C v =
     (if ring_full ChunkSize C then None else Some (C\<lparr>c_items := c_items C @ [v]\<rparr>))"

definition extract_front :: "'a Chunk \<Rightarrow> ('a \<times> 'a Chunk) option" where
  "extract_front C =
     (case c_items C of [] \<Rightarrow> None | v # vs \<Rightarrow> Some (v, C\<lparr>c_items := vs\<rparr>))"

definition extract_back :: "'a Chunk \<Rightarrow> ('a \<times> 'a Chunk) option" where
  "extract_back C =
     (if ring_empty C then None
      else Some (last (c_items C), C\<lparr>c_items := butlast (c_items C)\<rparr>))"

text \<open>
  Modelled from the spec: the container of chunks \<open>QT<Chunk, Concurrent>\<close>
  (Galois/WorkList/WorkListHelpers.h) is not part of the sources at hand.  It is a
  linked stack (\<open>ConExtLinkedStack\<close>, \<open>pop\<close> returns the chunk pushed last) or a linked
  queue (\<open>ConExtLinkedQueue\<close>, \<open>pop\<close> returns the chunk pushed first); \<open>pop\<close> on an
  empty container returns null.  A container is the list of its chunks, the next
  one to pop first.
\<close>

datatype QT = ConExtLinkedStack | ConExtLinkedQueue

type_synonym 'a LevelItem = "'a Chunk list"

definition QT_push :: "QT \<Rightarrow> 'a LevelItem \<Rightarrow> 'a Chunk \<Rightarrow> 'a LevelItem" where
  "QT_push qt I C = (case qt of ConExtLinkedStack \<Rightarrow> C # I | ConExtLinkedQueue \<Rightarrow> I @ [C])"

definition QT_pop :: "'a LevelItem \<Rightarrow> 'a Chunk option \<times> 'a LevelItem" where
  "QT_pop I = (case I of [] \<Rightarrow> (None, []) | C # I' \<Rightarrow> (Some C, I'))"

subsection \<open>ChunkedMaster\<close>

text \<open>
  The template parameters of \<open>ChunkedMaster\<close>, and what a call reads from the
  runtime: the id of the calling thread (\<open>LL::getTID()\<close>), \<open>Runtime::activeThreads\<close>,
  and the package of a thread, by which \<open>PerPackageStorage::getRemote\<close> finds the
  entry of a thread.
\<close>

record config =
  QT :: QT
  Distributed :: bool
  IsStack :: bool
  ChunkSize :: nat
  Concurrent :: bool

record env =
  getTID :: nat
  activeThreads :: nat
  packageOf :: "nat \<Rightarrow> nat"

record 'a p =
  cur :: "'a Chunk option"
  "next" :: "'a Chunk option"

text \<open>
  \<open>data\<close> is the \<open>squeue\<close> of the per-thread records and \<open>Q\<close> the \<open>squeue\<close> of the
  containers: a table with one entry per thread (per package), or the single entry
  0 in the specialisation for \<open>false\<close>.  \<open>wl_heap\<close> is the state of the
  \<open>FixedSizeAllocator heap\<close> together with the process-wide state.
\<close>

record ('a, 'h) ChunkedMaster =
  wl_heap :: "'h \<times> sys"
  data :: "nat \<Rightarrow> 'a p"
  Q :: "nat \<Rightarrow> 'a LevelItem"

definition data_get :: "config \<Rightarrow> env \<Rightarrow> nat" where
  "data_get cfg e = (if Concurrent cfg then getTID e else 0)"

definition Q_get :: "config \<Rightarrow> env \<Rightarrow> nat" where
  "Q_get cfg e = (if Distributed cfg then packageOf e (getTID e) else 0)"

definition Q_get_i :: "config \<Rightarrow> env \<Rightarrow> nat \<Rightarrow> nat" where
  "Q_get_i cfg e i = (if Distributed cfg then packageOf e i else 0)"

definition myEffectiveID :: "config \<Rightarrow> env \<Rightarrow> nat" where
  "myEffectiveID cfg e = (if Distributed cfg then getTID e else 0)"

definition Q_size :: "config \<Rightarrow> env \<Rightarrow> nat" where
  "Q_size cfg e = (if Distributed cfg then activeThreads e else 0)"

text \<open>
  \<open>mkChunk\<close> constructs an empty chunk in the storage that the heap returns (a
  construction at the null pointer is \<open>NullDeref\<close>); \<open>sizeof_Chunk\<close> is
  \<open>sizeof(Chunk)\<close>.
\<close>

definition mkChunk :: "'h heap \<Rightarrow> size_t \<Rightarrow> 'h \<times> sys \<Rightarrow> error + ('a Chunk \<times> 'h \<times> sys)" where
  "mkChunk H sizeof_Chunk s =
     (case allocate H s sizeof_Chunk of
        Inl e \<Rightarrow> Inl e
      | Inr (ptr, s') \<Rightarrow>
          if ptr = 0 then Inl NullDeref else Inr (\<lparr>c_addr = ptr, c_items = []\<rparr>, s'))"

definition delChunk :: "'h heap \<Rightarrow> size_t \<Rightarrow> 'h \<times> sys \<Rightarrow> 'a Chunk \<Rightarrow> error + ('h \<times> sys)" where
  "delChunk H sizeof_Chunk s C = deallocate H s (c_addr C) sizeof_Chunk"

definition pushChunk ::
  "config \<Rightarrow> env \<Rightarrow> ('a, 'h) ChunkedMaster \<Rightarrow> 'a Chunk \<Rightarrow> ('a, 'h) ChunkedMaster" where
  "pushChunk cfg e w C =
     w\<lparr>Q := (Q w)(Q_get cfg e := QT_push (QT cfg) (Q w (Q_get cfg e)) C)\<rparr>"

definition popChunkByID ::
  "config \<Rightarrow> env \<Rightarrow> ('a, 'h) ChunkedMaster \<Rightarrow> nat \<Rightarrow> 'a Chunk option \<times> ('a, 'h) ChunkedMaster" where
  "popChunkByID cfg e w i =
     (case QT_pop (Q w (Q_get_i cfg e i)) of
        (r, I') \<Rightarrow> (r, w\<lparr>Q := (Q w)(Q_get_i cfg e i := I')\<rparr>))"

text \<open>The two \<open>for\<close> loops of \<open>popChunk\<close>: the ids are tried in the order of the list.\<close>

fun popChunk_scan ::
  "config \<Rightarrow> env \<Rightarrow> ('a, 'h) ChunkedMaster \<Rightarrow> nat list \<Rightarrow> 'a Chunk option \<times> ('a, 'h) ChunkedMaster" where
  "popChunk_scan cfg e w [] = (None, w)"
| "popChunk_scan cfg e w (i # is) =
     (case popChunkByID cfg e w i of
        (Some r, w') \<Rightarrow> (Some r, w')
      | (None, w') \<Rightarrow> popChunk_scan cfg e w' is)"

definition popChunk ::
  "config \<Rightarrow> env \<Rightarrow> ('a, 'h) ChunkedMaster \<Rightarrow> 'a Chunk option \<times> ('a, 'h) ChunkedMaster" where
  "popChunk cfg e w =
     (let id = myEffectiveID cfg e in
      popChunk_scan cfg e w ([id] @ [id + 1 ..< Q_size cfg e] @ [0 ..< id]))"

text \<open>
  \<open>emplacei(n, args)\<close>, with \<open>n\<close> the record \<open>data.get()\<close> of the calling thread.  The
  pointer to the slot that the source returns is not part of the result.
\<close>

definition set_next ::
  "nat \<Rightarrow> 'a Chunk option \<Rightarrow> ('a, 'h) ChunkedMaster \<Rightarrow> ('a, 'h) ChunkedMaster" where
  "set_next k C w = w\<lparr>data := (data w)(k := (data w k)\<lparr>next := C\<rparr>)\<rparr>"

definition set_cur ::
  "nat \<Rightarrow> 'a Chunk option \<Rightarrow> ('a, 'h) ChunkedMaster \<Rightarrow> ('a, 'h) ChunkedMaster" where
  "set_cur k C w = w\<lparr>data := (data w)(k := (data w k)\<lparr>cur := C\<rparr>)\<rparr>"

definition emplacei ::
  "'h heap \<Rightarrow> size_t \<Rightarrow> config \<Rightarrow> env \<Rightarrow> ('a, 'h) ChunkedMaster \<Rightarrow> 'a
     \<Rightarrow> error + ('a, 'h) ChunkedMaster" where
  "emplacei H sizeof_Chunk cfg e w v =
     (let k = data_get cfg e; n = data w k in
      case (case next n of None \<Rightarrow> None | Some C \<Rightarrow> emplace_back (ChunkSize cfg) C v) of
        Some C' \<Rightarrow> Inr (set_next k (Some C') w)
      | None \<Rightarrow>
          (let w1 = (case next n of Some C \<Rightarrow> pushChunk cfg e w C | None \<Rightarrow> w) in
           case mkChunk H sizeof_Chunk (wl_heap w1) of
             Inl err \<Rightarrow> Inl err
           | Inr (C0, s') \<Rightarrow>
               (case emplace_back (ChunkSize cfg) C0 v of
                  None \<Rightarrow> Inl AssertionFailed
                | Some C1 \<Rightarrow> Inr (set_next k (Some C1) (w1\<lparr>wl_heap := s'\<rparr>)))))"

definition push ::
  "'h heap \<Rightarrow> size_t \<Rightarrow> config \<Rightarrow> env \<Rightarrow> ('a, 'h) ChunkedMaster \<Rightarrow> 'a
     \<Rightarrow> error + ('a, 'h) ChunkedMaster" where
  "push H sizeof_Chunk cfg e w val = emplacei H sizeof_Chunk cfg e w val"

text \<open>\<open>push(b, e)\<close>: the values of the range, in order.\<close>

fun push_range ::
  "'h heap \<Rightarrow> size_t \<Rightarrow> config \<Rightarrow> env \<Rightarrow> ('a, 'h) ChunkedMaster \<Rightarrow> 'a list
     \<Rightarrow> error + ('a, 'h) ChunkedMaster" where
  "push_range H sizeof_Chunk cfg e w [] = Inr w"
| "push_range H sizeof_Chunk cfg e w (v # vs) =
     (case emplacei H sizeof_Chunk cfg e w v of
        Inl err \<Rightarrow> Inl err
      | Inr w' \<Rightarrow> push_range H sizeof_Chunk cfg e w' vs)"

definition flush :: "config \<Rightarrow> env \<Rightarrow> ('a, 'h) ChunkedMaster \<Rightarrow> ('a, 'h) ChunkedMaster" where
  "flush cfg e w =
     (let k = data_get cfg e in
      set_next k None (case next (data w k) of Some C \<Rightarrow> pushChunk cfg e w C | None \<Rightarrow> w))"

definition pop ::
  "'h heap \<Rightarrow> size_t \<Rightarrow> config \<Rightarrow> env \<Rightarrow> ('a, 'h) ChunkedMaster
     \<Rightarrow> error + ('a option \<times> ('a, 'h) ChunkedMaster)" where
  "pop H sizeof_Chunk cfg e w =
     (let k = data_get cfg e; n = data w k in
      if IsStack cfg then
        (case (case next n of None \<Rightarrow> None | Some C \<Rightarrow> extract_back C) of
           Some (v, C') \<Rightarrow> Inr (Some v, set_next k (Some C') w)
         | None \<Rightarrow>
             (case (case next n of Some C \<Rightarrow> delChunk H sizeof_Chunk (wl_heap w) C
                                 | None \<Rightarrow> Inr (wl_heap w)) of
                Inl err \<Rightarrow> Inl err
              | Inr s' \<Rightarrow>
                  (case popChunk cfg e (w\<lparr>wl_heap := s'\<rparr>) of
                     (None, w1) \<Rightarrow> Inr (None, set_next k None w1)
                   | (Some C, w1) \<Rightarrow>
                       (case extract_back C of
                          None \<Rightarrow> Inr (None, set_next k (Some C) w1)
                        | Some (v, C') \<Rightarrow> Inr (Some v, set_next k (Some C') w1)))))
      else
        (case (case cur n of None \<Rightarrow> None | Some C \<Rightarrow> extract_front C) of
           Some (v, C') \<Rightarrow> Inr (Some v, set_cur k (Some C') w)
         | None \<Rightarrow>
             (case (case cur n of Some C \<Rightarrow> delChunk H sizeof_Chunk (wl_heap w) C
                                | None \<Rightarrow> Inr (wl_heap w)) of
                Inl err \<Rightarrow> Inl err
              | Inr s' \<Rightarrow>
                  (case popChunk cfg e (w\<lparr>wl_heap := s'\<rparr>) of
                     (r, w1) \<Rightarrow>
                       (let w2 = (case r of
                                    Some C \<Rightarrow> set_cur k (Some C) w1
                                  | None \<Rightarrow> set_next k None (set_cur k (next (data w1 k)) w1)) in
                        case cur (data w2 k) of
                          None \<Rightarrow> Inr (None, w2)
                        | Some C \<Rightarrow>
                            (case extract_front C of
                               None \<Rightarrow> Inr (None, w2)
                             | Some (v, C') \<Rightarrow> Inr (Some v, set_cur k (Some C') w2)))))))"

text \<open>The constructor: every per-thread record is \<open>{0, 0}\<close> and every container empty.\<close>

definition ChunkedMaster_init :: "'h \<times> sys \<Rightarrow> ('a, 'h) ChunkedMaster" where
  "ChunkedMaster_init s =
     \<lparr>wl_heap = s, data = (\<lambda>_. \<lparr>cur = None, next = None\<rparr>), Q = (\<lambda>_. [])\<rparr>"

text \<open>The instances of the template that the file declares.\<close>

definition ChunkedFIFO :: "nat \<Rightarrow> bool \<Rightarrow> config" where
  "ChunkedFIFO cs conc =
     \<lparr>QT = ConExtLinkedQueue, Distributed = False, IsStack = False, ChunkSize = cs, Concurrent = conc\<rparr>"

definition ChunkedLIFO :: "nat \<Rightarrow> bool \<Rightarrow> config" where
  "ChunkedLIFO cs conc =
     \<lparr>QT = ConExtLinkedStack, Distributed = False, IsStack = True, ChunkSize = cs, Concurrent = conc\<rparr>"

definition dChunkedFIFO :: "nat \<Rightarrow> bool \<Rightarrow> config" where
  "dChunkedFIFO cs conc =
     \<lparr>QT = ConExtLinkedQueue, Distributed = True, IsStack = False, ChunkSize = cs, Concurrent = conc\<rparr>"

definition dChunkedLIFO :: "nat \<Rightarrow> bool \<Rightarrow> config" where
  "dChunkedLIFO cs conc =
     \<lparr>QT = ConExtLinkedStack, Distributed = True, IsStack = True, ChunkSize = cs, Concurrent = conc\<rparr>"

definition dChunkedBag :: "nat \<Rightarrow> bool \<Rightarrow> config" where
  "dChunkedBag cs conc =
     \<lparr>QT = ConExtLinkedQueue, Distributed = True, IsStack = True, ChunkSize = cs, Concurrent = conc\<rparr>"

section \<open>Notions used to state the properties\<close>

text \<open>A call has a result when it does not end in an error.\<close>

definition is_result :: "error + 'a \<Rightarrow> bool" where
  "is_result r = (case r of Inl e \<Rightarrow> False | Inr x \<Rightarrow> True)"


text \<open>
  The blocks of a freelist, from \<open>head\<close> along the \<open>next\<close> fields to the null
  pointer.
\<close>

primrec fl_chain :: "(addr \<Rightarrow> addr) \<Rightarrow> addr \<Rightarrow> addr list \<Rightarrow> bool" where
  "fl_chain nx h [] = (h = 0)"
| "fl_chain nx h (a # as) = (h = a \<and> a \<noteq> 0 \<and> fl_chain nx (nx a) as)"

text \<open>Consecutive calls of \<open>allocate\<close> with the sizes of a list: the pointers returned.\<close>

fun allocate_n :: "'h heap \<Rightarrow> 'h \<times> sys \<Rightarrow> size_t list \<Rightarrow> error + (addr list \<times> 'h \<times> sys)" where
  "allocate_n H s [] = Inr ([], s)"
| "allocate_n H s (n # ns) =
     (case allocate H s n of
        Inl e \<Rightarrow> Inl e
      | Inr (p, s') \<Rightarrow>
          (case allocate_n H s' ns of
             Inl e \<Rightarrow> Inl e
           | Inr (ps, s'') \<Rightarrow> Inr (p # ps, s'')))"

subsection \<open>Clients of a heap, and what the page source hands out\<close>

definition aligned8 :: "addr \<Rightarrow> bool" where
  "aligned8 p = (p AND 7 = 0)"

text \<open>
  The sizes of a size class: the size of an object, at least one byte and at most
  \<open>PTRDIFF_MAX\<close>.
\<close>

definition valid_size :: "size_t \<Rightarrow> bool" where
  "valid_size n = (0 < n \<and> unat n < 2 ^ 63)"

text \<open>
  What is assumed of the pages that the page source will hand out, for pages of
  \<open>A\<close> bytes: a page is aligned, lies above \<open>0x100\<close> and inside the address space,
  and two pages do not overlap.  \<open>future_pages\<close> are the pages of the freelist and
  then those the system will grant, in the order in which \<open>pageAlloc\<close> returns them.
\<close>

definition page_wf :: "nat \<Rightarrow> addr \<Rightarrow> bool" where
  "page_wf A P = (aligned8 P \<and> 0x100 \<le> unat P \<and> unat P + A \<le> 2 ^ 64)"

definition in_page :: "nat \<Rightarrow> addr \<Rightarrow> addr \<Rightarrow> bool" where
  "in_page A P u = (unat P \<le> unat u \<and> unat u < unat P + A)"

definition apart :: "nat \<Rightarrow> addr \<Rightarrow> addr \<Rightarrow> bool" where
  "apart A P P' = (unat P + A \<le> unat P' \<or> unat P' + A \<le> unat P)"

fun pages_ok :: "nat \<Rightarrow> addr list \<Rightarrow> bool" where
  "pages_ok A [] = True"
| "pages_ok A (P # ps) = (page_wf A P \<and> (\<forall>P' \<in> set ps. apart A P P') \<and> pages_ok A ps)"

definition future_pages :: "sys \<Rightarrow> addr list" where
  "future_pages g = page_freelist g @ os_grants g"

text \<open>
  The invariant of a heap that carves its current page \<open>pg\<close> up to the offset
  \<open>off\<close>, with \<open>U\<close> the pointers it has returned so far: they are aligned, above
  \<open>0x100\<close>, outside every page still to come, and those inside the current page lie
  below the offset.
\<close>

definition carve_inv :: "nat \<Rightarrow> addr \<Rightarrow> nat \<Rightarrow> sys \<Rightarrow> addr set \<Rightarrow> bool" where
  "carve_inv A pg off g U =
     (pages_ok A (future_pages g) \<and>
      (\<forall>u \<in> U. aligned8 u \<and> 0x100 < u \<and> (\<forall>P \<in> set (future_pages g). \<not> in_page A P u)) \<and>
      (if pg = 0 then U = {}
       else page_wf A pg \<and> (\<forall>P \<in> set (future_pages g). apart A pg P) \<and>
            8 \<le> off \<and> off \<le> A \<and> 8 dvd off \<and>
            (\<forall>u \<in> U. in_page A pg u \<longrightarrow> unat u < unat pg + off)))"

definition bump_inv :: "nat \<Rightarrow> unit SimpleBumpPtr \<times> sys \<Rightarrow> addr set \<Rightarrow> bool" where
  "bump_inv A s U =
     (case s of (b, g) \<Rightarrow>
        \<exists>off. (bp_head b \<noteq> 0 \<longrightarrow> bp_offset b = of_nat off) \<and> carve_inv A (bp_head b) off g U)"

definition block_inv :: "nat \<Rightarrow> 32 word \<Rightarrow> unit BlockAlloc \<times> sys \<Rightarrow> addr set \<Rightarrow> bool" where
  "block_inv A E s U =
     (case s of (b, g) \<Rightarrow>
        \<exists>idx. (blk_head b \<noteq> 0 \<longrightarrow> headIndex b = of_nat idx) \<and>
              idx \<le> unat (TotalFit E (of_nat A)) \<and>
              carve_inv A (blk_head b) (8 + idx * unat (sizeof_TyEq E)) g U)"

text \<open>The fields that the constructor of \<open>BlockAlloc\<close> sets.\<close>

definition BlockAlloc_init0 :: "(addr \<Rightarrow> addr) \<Rightarrow> unit BlockAlloc" where
  "BlockAlloc_init0 m = \<lparr>blk_head = 0, headIndex = 0, blk_next = m, blk_src = ()\<rparr>"

text \<open>
  \<open>fresh_spec\<close>: with the sizes \<open>V\<close> and the invariant \<open>SInv\<close> on the state and the
  set of pointers returned so far, every pointer that \<open>allocate\<close> returns is new,
  aligned and above \<open>0x100\<close>.

  \<open>heap_spec\<close>: what a client relies on, with \<open>L\<close> the set of live pointers
  (allocated and not yet deallocated): a pointer that \<open>allocate\<close> returns is not
  live, aligned and above \<open>0x100\<close>, and \<open>deallocate\<close> of a live pointer has a result.
\<close>

definition fresh_spec ::
  "'h heap \<Rightarrow> (size_t \<Rightarrow> bool) \<Rightarrow> ('h \<times> sys \<Rightarrow> addr set \<Rightarrow> bool) \<Rightarrow> bool" where
  "fresh_spec X V SInv =
     (\<forall>s U n p s'. SInv s U \<and> V n \<and> allocate X s n = Inr (p, s') \<longrightarrow>
        SInv s' (insert p U) \<and> p \<notin> U \<and> aligned8 p \<and> 0x100 < p)"

definition heap_spec ::
  "'h heap \<Rightarrow> (size_t \<Rightarrow> bool) \<Rightarrow> ('h \<times> sys \<Rightarrow> addr set \<Rightarrow> bool) \<Rightarrow> bool" where
  "heap_spec H V Inv =
     ((\<forall>s L n p s'. Inv s L \<and> V n \<and> allocate H s n = Inr (p, s') \<longrightarrow>
         Inv s' (insert p L) \<and> p \<notin> L \<and> aligned8 p \<and> 0x100 < p) \<and>
      (\<forall>s L p n. Inv s L \<and> p \<in> L \<longrightarrow> (\<exists>s'. deallocate H s p n = Inr s' \<and> Inv s' (L - {p}))))"

text \<open>
  The invariant of a freelist over a source heap with the invariant \<open>SInv\<close>: the
  pool is a chain of distinct blocks that the source has returned and that are not
  live.
\<close>

definition fl_inv ::
  "('h \<times> sys \<Rightarrow> addr set \<Rightarrow> bool) \<Rightarrow> 'h FreeListHeap \<times> sys \<Rightarrow> addr set \<Rightarrow> bool" where
  "fl_inv SInv s L =
     (case s of (f, g) \<Rightarrow>
        \<exists>U ps. SInv (fl_src f, g) U \<and> fl_chain (fl_next f) (fl_head f) ps \<and> distinct ps \<and>
               set ps \<subseteq> U \<and> L \<subseteq> U \<and> set ps \<inter> L = {} \<and> (\<forall>u \<in> U. aligned8 u \<and> 0x100 < u))"

definition issued_inv :: "('h \<times> sys \<Rightarrow> addr set \<Rightarrow> bool) \<Rightarrow> 'h \<times> sys \<Rightarrow> addr set \<Rightarrow> bool" where
  "issued_inv SInv s L = (\<exists>U. L \<subseteq> U \<and> SInv s U)"

definition thread_inv ::
  "nat \<Rightarrow> ('h \<times> sys \<Rightarrow> addr set \<Rightarrow> bool) \<Rightarrow> (nat \<Rightarrow> 'h) \<times> sys \<Rightarrow> addr set \<Rightarrow> bool" where
  "thread_inv tid Inv s L = Inv (fst s tid, snd s) L"

text \<open>
  The states that a client reaches from \<open>s0\<close> by calls of \<open>allocate\<close> with sizes in
  \<open>V\<close> and calls of \<open>deallocate\<close> on pointers that are live, together with the set
  \<open>L\<close> of the live pointers.
\<close>

inductive reach :: "'h heap \<Rightarrow> (size_t \<Rightarrow> bool) \<Rightarrow> 'h \<times> sys \<Rightarrow> 'h \<times> sys \<Rightarrow> addr set \<Rightarrow> bool"
  for H :: "'h heap" and V :: "size_t \<Rightarrow> bool" and s0 :: "'h \<times> sys" where
  reach_init: "reach H V s0 s0 {}"
| reach_allocate:
    "reach H V s0 s L \<Longrightarrow> V n \<Longrightarrow> allocate H s n = Inr (p, s') \<Longrightarrow> reach H V s0 s' (insert p L)"
| reach_deallocate:
    "reach H V s0 s L \<Longrightarrow> p \<in> L \<Longrightarrow> deallocate H s p n = Inr s' \<Longrightarrow> reach H V s0 s' (L - {p})"

subsection \<open>The worklist seen as a sequence of tasks\<close>

text \<open>
  \<open>pop()\<close> called until it returns empty: the values it returned, in order.  The
  loop is bounded by \<open>fuel\<close> calls; \<open>None\<close> is the loop that has not seen the empty
  result within them.
\<close>

fun pop_until_empty ::
  "'h heap \<Rightarrow> size_t \<Rightarrow> config \<Rightarrow> env \<Rightarrow> nat \<Rightarrow> ('a, 'h) ChunkedMaster
     \<Rightarrow> (error + ('a list \<times> ('a, 'h) ChunkedMaster)) option" where
  "pop_until_empty H csz cfg e 0 w = None"
| "pop_until_empty H csz cfg e (Suc fuel) w =
     (case pop H csz cfg e w of
        Inl err \<Rightarrow> Some (Inl err)
      | Inr (None, w') \<Rightarrow> Some (Inr ([], w'))
      | Inr (Some v, w') \<Rightarrow>
          (case pop_until_empty H csz cfg e fuel w' of
             None \<Rightarrow> None
           | Some (Inl err) \<Rightarrow> Some (Inl err)
           | Some (Inr (vs, w'')) \<Rightarrow> Some (Inr (v # vs, w''))))"

text \<open>
  The chunks that the calling thread can reach: its \<open>cur\<close>, its \<open>next\<close> and the
  container of its package.  The invariant of a worklist that one thread uses, over
  a heap with the invariant \<open>Inv\<close>: the chunks lie at distinct addresses, which are
  exactly the live pointers of the heap; no chunk in the container is empty; the
  containers of the other packages are empty.
\<close>

definition chunk_of :: "'a Chunk option \<Rightarrow> 'a Chunk list" where
  "chunk_of c = (case c of None \<Rightarrow> [] | Some C \<Rightarrow> [C])"

definition wl_chunks :: "config \<Rightarrow> env \<Rightarrow> ('a, 'h) ChunkedMaster \<Rightarrow> 'a Chunk list" where
  "wl_chunks cfg e w =
     chunk_of (cur (data w (data_get cfg e))) @ chunk_of (next (data w (data_get cfg e))) @
     Q w (Q_get cfg e)"

definition wl_inv ::
  "('h \<times> sys \<Rightarrow> addr set \<Rightarrow> bool) \<Rightarrow> config \<Rightarrow> env \<Rightarrow> ('a, 'h) ChunkedMaster \<Rightarrow> bool" where
  "wl_inv Inv cfg e w =
     (distinct (map c_addr (wl_chunks cfg e w)) \<and>
      Inv (wl_heap w) (set (map c_addr (wl_chunks cfg e w))) \<and>
      (\<forall>C \<in> set (Q w (Q_get cfg e)). c_items C \<noteq> []) \<and>
      (\<forall>j. j \<noteq> Q_get cfg e \<longrightarrow> Q w j = []))"

text \<open>
  The tasks in the worklist, oldest first: under the FIFO discipline \<open>cur\<close>, then
  the queue of chunks, then \<open>next\<close>; under the LIFO discipline the stack of
  chunks from its bottom, then \<open>next\<close>.
\<close>

definition items_of :: "'a Chunk list \<Rightarrow> 'a list" where
  "items_of Cs = concat (map c_items Cs)"

definition items_fifo :: "config \<Rightarrow> env \<Rightarrow> ('a, 'h) ChunkedMaster \<Rightarrow> 'a list" where
  "items_fifo cfg e w =
     items_of (chunk_of (cur (data w (data_get cfg e)))) @ items_of (Q w (Q_get cfg e)) @
     items_of (chunk_of (next (data w (data_get cfg e))))"

definition items_lifo :: "config \<Rightarrow> env \<Rightarrow> ('a, 'h) ChunkedMaster \<Rightarrow> 'a list" where
  "items_lifo cfg e w =
     items_of (rev (Q w (Q_get cfg e))) @ items_of (chunk_of (next (data w (data_get cfg e))))"

section \<open>Concrete states used as examples\<close>

definition env1 :: env where
  "env1 = \<lparr>getTID = 0, activeThreads = 1, packageOf = (\<lambda>_. 0)\<rparr>"

definition sys_malloc1 :: sys where
  "sys_malloc1 =
     \<lparr>page_freelist = [], os_grants = [], numPageAllocTotal = 0, malloc_grants = [0x1000]\<rparr>"


definition sys_pages2 :: sys where
  "sys_pages2 =
     \<lparr>page_freelist = [], os_grants = [0x200000, 0x400000], numPageAllocTotal = 0,
      malloc_grants = [0x1000]\<rparr>"

definition fl1 :: "unit FreeListHeap" where
  "fl1 = \<lparr>fl_head = 0x2000, fl_next = (\<lambda>_. 0), fl_src = ()\<rparr>"

definition la_s0 :: "LocalAlloc \<times> sys" where
  "la_s0 = (LocalAlloc_init (\<lambda>_. 0) (\<lambda>_. 0), sys_pages2)"

definition la_s1 :: "LocalAlloc \<times> sys" where
  "la_s1 = (\<lparr>fl_head = 0, fl_next = (\<lambda>_. 0),
             fl_src = \<lparr>bp_head = 0x200000, bp_offset = 72, bp_next = (\<lambda>_. 0)(0x200000 := 0), bp_src = ()\<rparr>\<rparr>,
            sys_pages2\<lparr>os_grants := [0x400000], numPageAllocTotal := 1\<rparr>)"

definition la_s2 :: "LocalAlloc \<times> sys" where
  "la_s2 = (\<lparr>fl_head = 0, fl_next = (\<lambda>_. 0),
             fl_src = \<lparr>bp_head = 0x200000, bp_offset = 136, bp_next = (\<lambda>_. 0)(0x200000 := 0), bp_src = ()\<rparr>\<rparr>,
            sys_pages2\<lparr>os_grants := [0x400000], numPageAllocTotal := 1\<rparr>)"

definition la_s3 :: "LocalAlloc \<times> sys" where
  "la_s3 = (\<lparr>fl_head = 0x200008, fl_next = (\<lambda>_. 0)(0x200008 := 0),
             fl_src = \<lparr>bp_head = 0x200000, bp_offset = 136, bp_next = (\<lambda>_. 0)(0x200000 := 0), bp_src = ()\<rparr>\<rparr>,
            sys_pages2\<lparr>os_grants := [0x400000], numPageAllocTotal := 1\<rparr>)"

definition sa_s0 :: "(nat \<Rightarrow> LocalAlloc) \<times> sys" where
  "sa_s0 = (\<lambda>_. LocalAlloc_init (\<lambda>_. 0) (\<lambda>_. 0), sys_pages2)"

section \<open>Properties of the worklist push path\<close>

lemma mkChunk_items: "mkChunk H csz s = Inr (C0, s') \<Longrightarrow> c_items C0 = []"
  by (auto simp: mkChunk_def split: sum.splits if_splits)

lemma emplace_back_fresh:
  "1 \<le> cs \<Longrightarrow> c_items C0 = [] \<Longrightarrow> emplace_back cs C0 v = Some (C0\<lparr>c_items := [v]\<rparr>)"
  by (simp add: emplace_back_def ring_full_def)

lemma wl_heap_pushChunk: "wl_heap (pushChunk cfg e w C) = wl_heap w"
  by (simp add: pushChunk_def)

lemma data_set_next: "data (set_next k C w) k = (data w k)\<lparr>next := C\<rparr>"
  by (simp add: set_next_def)

lemma emplacei_not_full:
  "next (data w (data_get cfg e)) = Some C \<Longrightarrow> \<not> ring_full (ChunkSize cfg) C \<Longrightarrow>
   emplacei H csz cfg e w v =
     Inr (set_next (data_get cfg e) (Some (C\<lparr>c_items := c_items C @ [v]\<rparr>)) w)"
  by (simp add: emplacei_def Let_def emplace_back_def)

lemma emplacei_full:
  "next (data w (data_get cfg e)) = Some C \<Longrightarrow> ring_full (ChunkSize cfg) C \<Longrightarrow>
   1 \<le> ChunkSize cfg \<Longrightarrow>
   emplacei H csz cfg e w v =
     (case mkChunk H csz (wl_heap w) of
        Inl err \<Rightarrow> Inl err
      | Inr (C0, s') \<Rightarrow>
          Inr (set_next (data_get cfg e) (Some (C0\<lparr>c_items := [v]\<rparr>))
                 ((pushChunk cfg e w C)\<lparr>wl_heap := s'\<rparr>)))"
  by (auto simp: emplacei_def Let_def emplace_back_def wl_heap_pushChunk ring_full_def
      split: sum.splits dest!: mkChunk_items)

lemma emplacei_absent:
  "next (data w (data_get cfg e)) = None \<Longrightarrow> 1 \<le> ChunkSize cfg \<Longrightarrow>
   emplacei H csz cfg e w v =
     (case mkChunk H csz (wl_heap w) of
        Inl err \<Rightarrow> Inl err
      | Inr (C0, s') \<Rightarrow>
          Inr (set_next (data_get cfg e) (Some (C0\<lparr>c_items := [v]\<rparr>)) (w\<lparr>wl_heap := s'\<rparr>)))"
  by (auto simp: emplacei_def Let_def emplace_back_def ring_full_def
      split: sum.splits dest!: mkChunk_items)



text \<open>
  Claim C10.  With a chunk capacity of at least 1, \<open>emplace_back\<close> into the chunk
  that \<open>mkChunk\<close> has just made succeeds, so the assertion that follows it in
  \<open>emplacei\<close> holds: \<open>emplacei\<close> fails only when the allocation of the chunk fails,
  with the error of that allocation, and otherwise the value is the newest content
  of the thread's \<open>next\<close> chunk.
\<close>

theorem emplacei_fresh_chunk_accepts:
  fixes v :: 'a and H :: "'h heap"
  assumes "1 \<le> ChunkSize cfg"
  shows "(\<forall>C0 s'. mkChunk H csz s = Inr (C0, s') \<longrightarrow>
            emplace_back (ChunkSize cfg) C0 v = Some (C0\<lparr>c_items := [v]\<rparr>)) \<and>
         (case emplacei H csz cfg e w v of
            Inr w' \<Rightarrow> (\<exists>C. next (data w' (data_get cfg e)) = Some C \<and> c_items C \<noteq> [] \<and>
                           last (c_items C) = v)
          | Inl err \<Rightarrow> mkChunk H csz (wl_heap w) = (Inl err :: error + ('a Chunk \<times> 'h \<times> sys)))"
proof (intro conjI allI impI)
  fix C0 :: "'a Chunk" and s'
  assume "mkChunk H csz s = Inr (C0, s')"
  then show "emplace_back (ChunkSize cfg) C0 v = Some (C0\<lparr>c_items := [v]\<rparr>)"
    using assms by (simp add: mkChunk_items emplace_back_fresh)
next
  let ?k = "data_get cfg e"
  show "case emplacei H csz cfg e w v of
            Inr w' \<Rightarrow> (\<exists>C. next (data w' ?k) = Some C \<and> c_items C \<noteq> [] \<and> last (c_items C) = v)
          | Inl err \<Rightarrow> mkChunk H csz (wl_heap w) = (Inl err :: error + ('a Chunk \<times> 'h \<times> sys))"
  proof (cases "next (data w ?k)")
    case None
    then show ?thesis
      using assms by (simp add: emplacei_absent data_set_next split: sum.splits prod.splits)
  next
    case (Some C)
    show ?thesis
    proof (cases "ring_full (ChunkSize cfg) C")
      case True
      with Some assms show ?thesis
        by (simp add: emplacei_full data_set_next split: sum.splits prod.splits)
    next
      case False
      with Some show ?thesis
        by (simp add: emplacei_not_full data_set_next)
    qed
  qed
qed

theorem emplacei_fresh_chunk_accepts_witness:
  "1 \<le> ChunkSize (ChunkedLIFO 4 True) \<and>
   mkChunk MallocHeap 64 ((), sys_malloc1) =
     Inr (\<lparr>c_addr = 0x1000, c_items = ([] :: nat list)\<rparr>, (), sys_malloc1\<lparr>malloc_grants := []\<rparr>) \<and>
   emplace_back (ChunkSize (ChunkedLIFO 4 True)) \<lparr>c_addr = 0x1000, c_items = []\<rparr> (7::nat) =
     Some \<lparr>c_addr = 0x1000, c_items = [7]\<rparr> \<and>
   (case emplacei MallocHeap 64 (ChunkedLIFO 4 True) env1 (ChunkedMaster_init ((), sys_malloc1)) (7::nat) of
      Inr w' \<Rightarrow> (\<exists>C. next (data w' 0) = Some C \<and> last (c_items C) = 7)
    | Inl err \<Rightarrow> False)"
  using emplacei_fresh_chunk_accepts [where cfg = "ChunkedLIFO 4 True" and H = MallocHeap and csz = 64
       and s = "((), sys_malloc1)" and v = "7::nat" and e = env1
       and w = "ChunkedMaster_init ((), sys_malloc1)"]
  by (auto simp: ChunkedLIFO_def mkChunk_def MallocHeap_def malloc_def ChunkedMaster_init_def
       sys_malloc1_def data_get_def env1_def split: sum.splits)

section \<open>Properties of the heap layers\<close>

text \<open>
  Claim C9.  \<open>deallocate\<close> of the null pointer on a \<open>FreeListHeap\<close> and on a
  \<open>SelfLockFreeListHeap\<close> returns the state it was given: the list, the state of the
  source heap and the process-wide state are unchanged, in every state.
\<close>

theorem deallocate_null_is_noop:
  "deallocate (FreeListHeap S) s 0 len = Inr s \<and>
   deallocate (SelfLockFreeListHeap S) s 0 len = Inr s"
  by (cases s)
     (simp add: FreeListHeap_def SelfLockFreeListHeap_def FreeListHeap_deallocate_def
        SelfLockFreeListHeap_deallocate_def)



text \<open>
  Claim C8 is contradicted by the code on a heap that has no page yet.  On the
  freshly constructed bump pointer (\<open>head = 0\<close>, \<open>offset = 0\<close>) over the page source,
  \<open>allocate(8, allocated)\<close> takes the branch for a request that does not fit,
  computes \<open>remaining = AllocSize - 0\<close>, which is not zero, and so does not refill:
  it returns \<open>head + offset\<close>, the null pointer, reports 8 usable bytes, and leaves
  \<open>offset = AllocSize\<close> with no page pulled and the process-wide state unchanged.
\<close>

theorem allocate2_fresh_heap_returns_null:
  "SimpleBumpPtr_allocate2 (PageHeap hugePageSize) (SimpleBumpPtr_init m (), g) 8 =
     Inr (0, 8, \<lparr>bp_head = 0, bp_offset = 0x200000, bp_next = m, bp_src = ()\<rparr>, g)"
  by (simp add: SimpleBumpPtr_allocate2_def SimpleBumpPtr_init_def PageHeap_def hugePageSize_def
        alignedSize_def Let_def)

subsection \<open>The freelist\<close>

lemma fl_chain_upd: "a \<notin> set ps \<Longrightarrow> fl_chain (nx(a := v)) h ps = fl_chain nx h ps"
  by (induction ps arbitrary: h) auto

lemma fl_chain_pops:
  "fl_chain (fl_next f) (fl_head f) ps \<Longrightarrow> length ns = length ps \<Longrightarrow>
   allocate_n (FreeListHeap S) (f, g) ns = Inr (ps, f\<lparr>fl_head := 0\<rparr>, g)"
proof (induction ps arbitrary: f ns)
  case Nil
  then show ?case by simp
next
  case (Cons a as)
  then obtain n ns' where ns: "ns = n # ns'" and len: "length ns' = length as"
    by (cases ns) auto
  from Cons.prems(1) have h: "fl_head f = a" "a \<noteq> 0" and ch: "fl_chain (fl_next f) (fl_next f a) as"
    by simp_all
  have step: "allocate (FreeListHeap S) (f, g) n = Inr (a, f\<lparr>fl_head := fl_next f a\<rparr>, g)"
    using h by (simp add: FreeListHeap_def FreeListHeap_allocate_def)
  have "allocate_n (FreeListHeap S) (f\<lparr>fl_head := fl_next f a\<rparr>, g) ns' =
          Inr (as, (f\<lparr>fl_head := fl_next f a\<rparr>)\<lparr>fl_head := 0\<rparr>, g)"
    using ch len by (intro Cons.IH) simp_all
  with step ns show ?case by simp
qed

lemma clear_head_0_aux:
  assumes "FreeListHeap_clear S s = Some r"
  shows "\<forall>s'. r = Inr s' \<longrightarrow> fl_head (fst s') = 0"
proof (rule FreeListHeap_clear.raw_induct
    [where P = "\<lambda>S s r. \<forall>s'. r = Inr s' \<longrightarrow> fl_head (fst s') = 0" and S = S and s = s and y = r])
  show "FreeListHeap_clear S s = Some r" by (rule assms)
next
  fix clr :: "'a heap \<Rightarrow> 'a FreeListHeap \<times> sys \<Rightarrow> (error + 'a FreeListHeap \<times> sys) option"
    and S s r
  assume IH: "\<And>S s r. clr S s = Some r \<Longrightarrow> \<forall>s'. r = Inr s' \<longrightarrow> fl_head (fst s') = 0"
    and step: "(if fl_head (fst s) = 0 then Some (Inr s)
      else case deallocate S (fl_src (fst s), snd s) (fl_head (fst s)) 1 of
           Inl e \<Rightarrow> Some (Inl e)
           | Inr (h', g') \<Rightarrow>
               clr S ((fst s)\<lparr>fl_head := fl_next (fst s) (fl_head (fst s)), fl_src := h'\<rparr>, g')) = Some r"
  show "\<forall>s'. r = Inr s' \<longrightarrow> fl_head (fst s') = 0"
    using step IH by (auto split: if_splits sum.splits)
qed

lemma clear_head_0:
  "FreeListHeap_clear S s = Some (Inr s') \<Longrightarrow> fl_head (fst s') = 0"
  using clear_head_0_aux by blast

lemma clear_terminates:
  "fl_chain (fl_next f) (fl_head f) ps \<Longrightarrow> \<exists>r. FreeListHeap_clear S (f, g) = Some r"
proof (induction ps arbitrary: f g)
  case Nil
  then show ?case by (subst FreeListHeap_clear.simps) simp
next
  case (Cons a as)
  then have h: "fl_head f = a" "a \<noteq> 0" and ch: "fl_chain (fl_next f) (fl_next f a) as"
    by simp_all
  show ?case
  proof (cases "deallocate S (fl_src f, g) a 1")
    case (Inl e)
    then show ?thesis using h by (subst FreeListHeap_clear.simps) simp
  next
    case (Inr r)
    obtain h' g' where r: "r = (h', g')" by (cases r)
    have "\<exists>r. FreeListHeap_clear S (f\<lparr>fl_head := fl_next f a, fl_src := h'\<rparr>, g') = Some r"
      using ch by (intro Cons.IH) simp
    then show ?thesis using h Inr r by (subst FreeListHeap_clear.simps) simp
  qed
qed

lemma clear_total:
  "fl_chain (fl_next f) (fl_head f) ps \<Longrightarrow> \<forall>s q m. is_result (deallocate S s q m) \<Longrightarrow>
   \<exists>s'. FreeListHeap_clear S (f, g) = Some (Inr s')"
proof (induction ps arbitrary: f g)
  case Nil
  then show ?case by (subst FreeListHeap_clear.simps) simp
next
  case (Cons a as)
  then have h: "fl_head f = a" "a \<noteq> 0" and ch: "fl_chain (fl_next f) (fl_next f a) as"
    by simp_all
  from Cons.prems(2) obtain h' g' where d: "deallocate S (fl_src f, g) a 1 = Inr (h', g')"
    by (auto simp: is_result_def split: sum.splits) (metis old.sum.exhaust surj_pair)
  have "\<exists>s'. FreeListHeap_clear S (f\<lparr>fl_head := fl_next f a, fl_src := h'\<rparr>, g') = Some (Inr s')"
    using ch Cons.prems(2) by (intro Cons.IH) simp_all
  then show ?case using h d by (subst FreeListHeap_clear.simps) simp
qed


text \<open>
  Claim C6.  Let the freelist be a chain of blocks \<open>ps\<close> that ends in the null
  pointer, and \<open>p\<close> a block that is not pooled already, at an address above
  \<open>0x100\<close> as \<open>deallocate\<close> asserts.  After \<open>deallocate(p, len)\<close> the pool is
  \<open>p\<close> followed by \<open>ps\<close> and the source heap is untouched; the next \<open>allocate\<close>
  returns exactly \<open>p\<close>, and as many calls of \<open>allocate\<close> as there are pooled blocks
  return exactly the pooled blocks, without a call of the source heap (its state
  and the process-wide state are unchanged).  \<open>clear()\<close> ends on such a pool (with
  a result when the source's \<open>deallocate\<close> has one); after a \<open>clear()\<close> that
  returned, in any state, \<open>head\<close> is null and the next \<open>allocate\<close> is the
  \<open>allocate\<close> of the source heap.
\<close>

theorem freelist_returns_pooled_block:
  assumes "fl_chain (fl_next f) (fl_head f) ps" and "p \<notin> set ps" and "0x100 < p"
  shows "\<exists>f'. deallocate (FreeListHeap S) (f, g) p len = Inr (f', g) \<and> fl_src f' = fl_src f \<and>
           fl_chain (fl_next f') (fl_head f') (p # ps) \<and>
           allocate (FreeListHeap S) (f', g) n = Inr (p, f'\<lparr>fl_head := fl_head f\<rparr>, g) \<and>
           (length ns = Suc (length ps) \<longrightarrow>
              allocate_n (FreeListHeap S) (f', g) ns = Inr (p # ps, f'\<lparr>fl_head := 0\<rparr>, g)) \<and>
           (\<exists>r. FreeListHeap_clear S (f', g) = Some r \<and>
                ((\<forall>s q m. is_result (deallocate S s q m)) \<longrightarrow> is_result r)) \<and>
           (\<forall>s0 f2 g2. FreeListHeap_clear S s0 = Some (Inr (f2, g2)) \<longrightarrow>
              fl_head f2 = 0 \<and>
              allocate (FreeListHeap S) (f2, g2) n =
                (case allocate S (fl_src f2, g2) n of
                   Inl e \<Rightarrow> Inl e
                 | Inr (q, h', g3) \<Rightarrow> Inr (q, f2\<lparr>fl_src := h'\<rparr>, g3)))"
proof -
  define f' where "f' = f\<lparr>fl_next := (fl_next f)(p := fl_head f), fl_head := p\<rparr>"
  have p0: "p \<noteq> 0" using assms(3) by auto
  have d: "deallocate (FreeListHeap S) (f, g) p len = Inr (f', g)"
    using assms(3) p0 by (simp add: FreeListHeap_def FreeListHeap_deallocate_def f'_def)
  have src: "fl_src f' = fl_src f" by (simp add: f'_def)
  have ch: "fl_chain (fl_next f') (fl_head f') (p # ps)"
    using assms(1,2) p0 by (simp add: f'_def fl_chain_upd)
  have a: "allocate (FreeListHeap S) (f', g) n = Inr (p, f'\<lparr>fl_head := fl_head f\<rparr>, g)"
    using p0 by (simp add: FreeListHeap_def FreeListHeap_allocate_def f'_def)
  have an: "length ns = Suc (length ps) \<longrightarrow>
              allocate_n (FreeListHeap S) (f', g) ns = Inr (p # ps, f'\<lparr>fl_head := 0\<rparr>, g)"
    using fl_chain_pops [OF ch] by simp
  have ct: "\<exists>r. FreeListHeap_clear S (f', g) = Some r \<and>
                ((\<forall>s q m. is_result (deallocate S s q m)) \<longrightarrow> is_result r)"
  proof (cases "\<forall>s q m. is_result (deallocate S s q m)")
    case True
    from clear_total [OF ch True] obtain s' where "FreeListHeap_clear S (f', g) = Some (Inr s')"
      by blast
    then show ?thesis by (simp add: is_result_def)
  next
    case False
    with clear_terminates [OF ch] show ?thesis by blast
  qed
  have cl: "\<forall>s0 f2 g2. FreeListHeap_clear S s0 = Some (Inr (f2, g2)) \<longrightarrow>
              fl_head f2 = 0 \<and>
              allocate (FreeListHeap S) (f2, g2) n =
                (case allocate S (fl_src f2, g2) n of
                   Inl e \<Rightarrow> Inl e
                 | Inr (q, h', g3) \<Rightarrow> Inr (q, f2\<lparr>fl_src := h'\<rparr>, g3))"
  proof (intro allI impI)
    fix s0 f2 g2
    assume "FreeListHeap_clear S s0 = Some (Inr (f2, g2))"
    from clear_head_0 [OF this] have "fl_head f2 = 0" by simp
    then show "fl_head f2 = 0 \<and>
              allocate (FreeListHeap S) (f2, g2) n =
                (case allocate S (fl_src f2, g2) n of
                   Inl e \<Rightarrow> Inl e
                 | Inr (q, h', g3) \<Rightarrow> Inr (q, f2\<lparr>fl_src := h'\<rparr>, g3))"
      by (simp add: FreeListHeap_def FreeListHeap_allocate_def)
  qed
  from d src ch a an ct cl show ?thesis by blast
qed

theorem freelist_returns_pooled_block_witness:
  "fl_chain (fl_next fl1) (fl_head fl1) [0x2000] \<and> 0x1000 \<notin> set [0x2000 :: addr] \<and>
   (0x100 :: addr) < 0x1000 \<and>
   (\<exists>f'. deallocate (FreeListHeap MallocHeap) (fl1, sys_malloc1) 0x1000 8 = Inr (f', sys_malloc1) \<and>
         allocate (FreeListHeap MallocHeap) (f', sys_malloc1) 8 =
           Inr (0x1000, f'\<lparr>fl_head := 0x2000\<rparr>, sys_malloc1) \<and>
         allocate_n (FreeListHeap MallocHeap) (f', sys_malloc1) [8, 8] =
           Inr ([0x1000, 0x2000], f'\<lparr>fl_head := 0\<rparr>, sys_malloc1))"
proof -
  have h1: "fl_chain (fl_next fl1) (fl_head fl1) [0x2000]" by (simp add: fl1_def)
  have h2: "0x1000 \<notin> set [0x2000 :: addr]" by simp
  have h3: "(0x100 :: addr) < 0x1000" by simp
  from freelist_returns_pooled_block [OF h1 h2 h3, where S = MallocHeap and g = sys_malloc1
      and len = 8 and n = 8 and ns = "[8, 8]"]
  obtain f' where
    "deallocate (FreeListHeap MallocHeap) (fl1, sys_malloc1) 0x1000 8 = Inr (f', sys_malloc1)"
    "allocate (FreeListHeap MallocHeap) (f', sys_malloc1) 8 = Inr (0x1000, f'\<lparr>fl_head := fl_head fl1\<rparr>, sys_malloc1)"
    "allocate_n (FreeListHeap MallocHeap) (f', sys_malloc1) [8, 8] = Inr ([0x1000, 0x2000], f'\<lparr>fl_head := 0\<rparr>, sys_malloc1)"
    by auto
  then show ?thesis using h1 h2 h3 by (auto simp: fl1_def)
qed

subsection \<open>Which layers can fail\<close>


lemma scast_8: "(scast (8 :: 32 word) :: 64 word) = 8"
  by simp














subsection \<open>The bump pointer\<close>

lemma scast_of_nat_small:
  "n < 2 ^ 31 \<Longrightarrow> (scast (of_nat n :: 32 word) :: 64 word) = of_nat n"
proof -
  assume a: "n < 2 ^ 31"
  have "signed_take_bit 31 (int n) = int n"
    using a by (intro signed_take_bit_int_eq_self) auto
  then show ?thesis
    by (simp add: signed_of_nat)
qed

lemma ucast_of_nat_down: "(ucast (of_nat n :: 64 word) :: 32 word) = of_nat n"
proof -
  have "(ucast (of_nat n :: 64 word) :: 32 word) = of_nat (take_bit 64 n)"
    by (simp add: ucast_eq unsigned_of_nat)
  also have "\<dots> = of_nat n"
    by (simp add: word_of_nat_eq_iff)
  finally show ?thesis .
qed

lemma word64_of_nat_less:
  "m < 2 ^ 64 \<Longrightarrow> n < 2 ^ 64 \<Longrightarrow> ((of_nat m :: 64 word) < of_nat n) = (m < n)"
  by (simp add: word_of_nat_less_iff take_bit_nat_eq_self)

text \<open>One call of allocate on the bump pointer, with the sizes as natural numbers.\<close>

lemma bump_allocate_fit:
  assumes "bp_head b \<noteq> 0" "bp_offset b = of_nat off" "alignedSize n = of_nat a"
    "AllocSize S = of_nat A" "off + a \<le> A" "A < 2 ^ 31"
  shows "allocate (SimpleBumpPtr S) (b, g) n =
           Inr (bp_head b + of_nat off, b\<lparr>bp_offset := of_nat (off + a)\<rparr>, g)"
proof -
  have off: "off < 2 ^ 31" using assms(5,6) by simp
  have sc: "(scast (bp_offset b) :: 64 word) = of_nat off"
    using off by (simp add: assms(2) scast_of_nat_small)
  have lt: "\<not> (of_nat A :: 64 word) < of_nat (off + a)"
    using assms(5,6) by (subst word64_of_nat_less) simp_all
  have uc: "(ucast (of_nat (off + a) :: 64 word) :: 32 word) = of_nat (off + a)"
    by (rule ucast_of_nat_down)
  show ?thesis
    using assms(1) lt uc
    by (simp add: SimpleBumpPtr_def SimpleBumpPtr_allocate_def sc assms(3,4) flip: of_nat_add)
qed

lemma bump_allocate_refill:
  assumes "bp_head b = 0 \<or> A < off + a" "bp_offset b = of_nat off" "off \<le> A"
    "alignedSize n = of_nat a" "AllocSize S = of_nat A" "8 + a \<le> A" "A < 2 ^ 31"
    "allocate S (bp_src b, g) (of_nat A) = Inr (P, h', g')" "P \<noteq> 0"
  shows "allocate (SimpleBumpPtr S) (b, g) n =
           Inr (P + 8, \<lparr>bp_head = P, bp_offset = of_nat (8 + a),
                        bp_next = (bp_next b)(P := bp_head b), bp_src = h'\<rparr>, g')"
proof -
  have off: "off < 2 ^ 31" using assms(3,7) by simp
  have sc: "(scast (bp_offset b) :: 64 word) = of_nat off"
    using off by (simp add: assms(2) scast_of_nat_small)
  have c1: "bp_head b = 0 \<or> (of_nat A :: 64 word) < of_nat (off + a)"
    using assms(1,3,6,7) by (subst word64_of_nat_less) auto
  have c2: "\<not> (of_nat A :: 64 word) < of_nat (8 + a)"
    using assms(6,7) by (subst word64_of_nat_less) simp_all
  have uc: "(ucast (of_nat (8 + a) :: 64 word) :: 32 word) = of_nat (8 + a)"
    by (rule ucast_of_nat_down)
  have s8: "(scast (8 :: 32 word) :: 64 word) = 8" by simp
  have e8: "(8 :: 64 word) + of_nat a = of_nat (8 + a)" by simp
  show ?thesis
    using c1 c2 uc assms(8,9)
    by (auto simp: SimpleBumpPtr_def SimpleBumpPtr_allocate_def SimpleBumpPtr_refill_def sc
          assms(4,5) e8 simp flip: of_nat_add simp del: of_nat_add)
qed


lemma allocate_n_append:
  "allocate_n H s (xs @ ys) =
     (case allocate_n H s xs of
        Inl e \<Rightarrow> Inl e
      | Inr (ps, s') \<Rightarrow>
          (case allocate_n H s' ys of
             Inl e \<Rightarrow> Inl e
           | Inr (qs, s'') \<Rightarrow> Inr (ps @ qs, s'')))"
  by (induction xs arbitrary: s) (auto split: sum.splits)

lemma alignedSize_8: "alignedSize 8 = of_nat 8"
  by (simp add: alignedSize_def)

lemma bump_fill:
  assumes "bp_head b \<noteq> 0" "bp_offset b = of_nat off" "AllocSize S = of_nat A"
    "off + 8 * k \<le> A" "A < 2 ^ 31"
  shows "allocate_n (SimpleBumpPtr S) (b, g) (replicate k 8) =
           Inr (map (\<lambda>i. bp_head b + of_nat (off + 8 * i)) [0..<k],
                b\<lparr>bp_offset := of_nat (off + 8 * k)\<rparr>, g)"
  using assms
proof (induction k arbitrary: b off)
  case 0
  then show ?case by simp
next
  case (Suc k)
  have step: "allocate (SimpleBumpPtr S) (b, g) 8 =
                Inr (bp_head b + of_nat off, b\<lparr>bp_offset := of_nat (off + 8)\<rparr>, g)"
    using Suc.prems by (intro bump_allocate_fit [where A = A] alignedSize_8) simp_all
  have rest: "allocate_n (SimpleBumpPtr S) (b\<lparr>bp_offset := of_nat (off + 8)\<rparr>, g) (replicate k 8) =
           Inr (map (\<lambda>i. bp_head (b\<lparr>bp_offset := of_nat (off + 8)\<rparr>) + of_nat (off + 8 + 8 * i)) [0..<k],
                (b\<lparr>bp_offset := of_nat (off + 8)\<rparr>)\<lparr>bp_offset := of_nat (off + 8 + 8 * k)\<rparr>, g)"
    using Suc.prems by (intro Suc.IH) simp_all
  have m: "map (\<lambda>i. bp_head b + of_nat (off + 8 * i)) [0..<Suc k] =
           (bp_head b + of_nat off) # map (\<lambda>i. bp_head b + of_nat (off + 8 + 8 * i)) [0..<k]"
    by (simp only: map_upt_Suc) (simp add: add.assoc)
  show ?case
    unfolding m using step rest by (simp add: add.assoc)
qed

text \<open>A refill followed by allocations that fit the new page.\<close>

lemma bump_page_run:
  assumes "bp_head b = 0 \<or> A < off + 8" "bp_offset b = of_nat off" "off \<le> A"
    "AllocSize S = of_nat A" "16 + 8 * k \<le> A" "A < 2 ^ 31"
    "allocate S (bp_src b, g) (of_nat A) = Inr (P, h', g')" "P \<noteq> 0"
  shows "allocate_n (SimpleBumpPtr S) (b, g) (replicate (Suc k) 8) =
           Inr (map (\<lambda>i. P + of_nat (8 + 8 * i)) [0..<Suc k],
                \<lparr>bp_head = P, bp_offset = of_nat (16 + 8 * k),
                 bp_next = (bp_next b)(P := bp_head b), bp_src = h'\<rparr>, g')"
proof -
  let ?b1 = "\<lparr>bp_head = P, bp_offset = of_nat (8 + 8), bp_next = (bp_next b)(P := bp_head b), bp_src = h'\<rparr>"
  have step: "allocate (SimpleBumpPtr S) (b, g) 8 = Inr (P + 8, ?b1, g')"
    using assms by (intro bump_allocate_refill [where A = A and off = off] alignedSize_8) simp_all
  have rest: "allocate_n (SimpleBumpPtr S) (?b1, g') (replicate k 8) =
           Inr (map (\<lambda>i. bp_head ?b1 + of_nat (16 + 8 * i)) [0..<k],
                ?b1\<lparr>bp_offset := of_nat (16 + 8 * k)\<rparr>, g')"
    using assms by (intro bump_fill [where A = A]) simp_all
  have m: "map (\<lambda>i. P + of_nat (8 + 8 * i)) [0..<Suc k] =
           (P + 8) # map (\<lambda>i. P + of_nat (16 + 8 * i)) [0..<k]"
    by (simp only: map_upt_Suc) simp
  show ?thesis
    unfolding m using step rest by simp
qed


lemma pageAlloc_os:
  "page_freelist g = [] \<Longrightarrow> os_grants g = P # rest \<Longrightarrow>
   allocate (PageHeap pgsz) (u, g) n =
     Inr (P, u, g\<lparr>os_grants := rest, numPageAllocTotal := numPageAllocTotal g + 1\<rparr>)"
  by (simp add: PageHeap_def pageAlloc_def)

lemma AllocSize_PageHeap: "AllocSize (PageHeap pgsz) = pgsz"
  by (simp add: PageHeap_def)

text \<open>
  Claim C4.  A fresh bump pointer over a page source with pages of 4096 bytes, whose
  freelist is empty and whose system grants the pages \<open>P1\<close> and \<open>P2\<close>, serves
  \<open>k \<le> 600\<close> consecutive calls \<open>allocate(8)\<close>.  The page source has handed out one
  page after each of the allocations 1 to 511 and two pages from the 512th
  allocation on: the first page holds 511 slots of 8 bytes behind its header, and
  the second page is pulled exactly by the 512th call.  The 600th pointer is
  \<open>P2 + 712\<close>, inside the second page.
\<close>

theorem bump_4096_second_page_on_512th:
  assumes "page_freelist g0 = []" "os_grants g0 = P1 # P2 # rest" "P1 \<noteq> 0" "P2 \<noteq> 0"
    "unat P2 + 4096 \<le> 2 ^ 64" "k \<le> 600"
  shows "\<exists>ps b g. allocate_n (SimpleBumpPtr (PageHeap 4096)) (SimpleBumpPtr_init m (), g0) (replicate k 8) =
              Inr (ps, b, g) \<and>
           numPageAllocTotal g - numPageAllocTotal g0 = (if k = 0 then 0 else if k < 512 then 1 else 2) \<and>
           (k = 600 \<longrightarrow> last ps = P2 + 712 \<and> unat P2 \<le> unat (last ps) \<and> unat (last ps) < unat P2 + 4096)"
proof -
  let ?H = "SimpleBumpPtr (PageHeap 4096)"
  let ?b0 = "SimpleBumpPtr_init m ()"
  let ?g1 = "g0\<lparr>os_grants := P2 # rest, numPageAllocTotal := numPageAllocTotal g0 + 1\<rparr>"
  let ?g2 = "?g1\<lparr>os_grants := rest, numPageAllocTotal := numPageAllocTotal ?g1 + 1\<rparr>"
  have A: "AllocSize (PageHeap 4096) = of_nat 4096" by (simp add: AllocSize_PageHeap)
  have first: "allocate_n ?H (?b0, g0) (replicate (Suc j) 8) =
           Inr (map (\<lambda>i. P1 + of_nat (8 + 8 * i)) [0..<Suc j],
                \<lparr>bp_head = P1, bp_offset = of_nat (16 + 8 * j),
                 bp_next = (bp_next ?b0)(P1 := bp_head ?b0), bp_src = ()\<rparr>, ?g1)"
    if "j \<le> 510" for j
    using that assms(1-3)
    by (intro bump_page_run [where A = 4096 and off = 0] A)
       (simp_all add: SimpleBumpPtr_init_def pageAlloc_os)
  let ?b1 = "\<lparr>bp_head = P1, bp_offset = of_nat (16 + 8 * 510),
                 bp_next = (bp_next ?b0)(P1 := bp_head ?b0), bp_src = ()\<rparr>"
  have second: "allocate_n ?H (?b1, ?g1) (replicate (Suc j) 8) =
           Inr (map (\<lambda>i. P2 + of_nat (8 + 8 * i)) [0..<Suc j],
                \<lparr>bp_head = P2, bp_offset = of_nat (16 + 8 * j),
                 bp_next = (bp_next ?b1)(P2 := bp_head ?b1), bp_src = ()\<rparr>, ?g2)"
    if "j \<le> 510" for j
    using that assms(1,2,4)
    by (intro bump_page_run [where A = 4096 and off = 4096] A)
       (simp_all add: pageAlloc_os)
  have "k = 0 \<or> (\<exists>j. k = Suc j \<and> j \<le> 510) \<or> (\<exists>j. k = 511 + Suc j \<and> j \<le> 88)"
    using assms(6) by presburger
  then consider "k = 0" | j where "k = Suc j" "j \<le> 510" | j where "k = 511 + Suc j" "j \<le> 88"
    by blast
  then show ?thesis
  proof cases
    case 1
    then show ?thesis by simp
  next
    case 2
    then show ?thesis using first [of j] by simp
  next
    case 3
    have rep: "replicate k (8 :: size_t) = replicate (Suc 510) 8 @ replicate (Suc j) 8"
    proof -
      have "k = Suc 510 + Suc j" using 3 by simp
      then show ?thesis by (simp only: replicate_add)
    qed
    have run: "allocate_n ?H (?b0, g0) (replicate k 8) =
        Inr (map (\<lambda>i. P1 + of_nat (8 + 8 * i)) [0..<Suc 510] @ map (\<lambda>i. P2 + of_nat (8 + 8 * i)) [0..<Suc j],
                \<lparr>bp_head = P2, bp_offset = of_nat (16 + 8 * j),
                 bp_next = (bp_next ?b1)(P2 := bp_head ?b1), bp_src = ()\<rparr>, ?g2)"
      unfolding rep allocate_n_append using first [of 510] second [of j] 3 by simp
    have l: "last (map (\<lambda>i. P1 + of_nat (8 + 8 * i)) [0..<Suc 510] @ map (\<lambda>i. P2 + of_nat (8 + 8 * i)) [0..<Suc j])
           = P2 + of_nat (8 + 8 * j)"
      by simp
    have u: "unat (P2 + 712) = unat P2 + 712"
    proof -
      have "unat P2 + unat (712 :: 64 word) < 2 ^ 64" using assms(5) by simp
      then have "unat (P2 + 712) = unat P2 + unat (712 :: 64 word)"
        using unat_add_lem [of P2 712] by simp
      then show ?thesis by simp
    qed
    have "k = 600 \<Longrightarrow> j = 88" using 3 by simp
    then show ?thesis
      unfolding run l using 3 u by auto
  qed
qed


theorem bump_4096_second_page_on_512th_witness:
  "page_freelist sys_pages2 = [] \<and> os_grants sys_pages2 = [0x200000, 0x400000] \<and>
   unat (0x400000 :: addr) + 4096 \<le> 2 ^ 64 \<and>
   (\<exists>ps b g. allocate_n (SimpleBumpPtr (PageHeap 4096)) (SimpleBumpPtr_init (\<lambda>_. 0) (), sys_pages2)
                (replicate 600 8) = Inr (ps, b, g) \<and>
             numPageAllocTotal g = 2 \<and> last ps = 0x4002C8)"
proof -
  have h1: "page_freelist sys_pages2 = []" and h2: "os_grants sys_pages2 = [0x200000, 0x400000]"
    and n0: "numPageAllocTotal sys_pages2 = 0"
    by (simp_all add: sys_pages2_def)
  have h3: "(0x200000 :: addr) \<noteq> 0" and h4: "(0x400000 :: addr) \<noteq> 0"
    and h5: "unat (0x400000 :: addr) + 4096 \<le> 2 ^ 64" and h6: "(600 :: nat) \<le> 600"
    by simp_all
  from bump_4096_second_page_on_512th [OF h1 h2 h3 h4 h5 h6, of "\<lambda>_. 0"]
  show ?thesis using h1 h2 h5 n0 by auto
qed

subsection \<open>Pointers returned by the sized allocators\<close>

lemma aligned8_dvd: "aligned8 p = (8 dvd unat p)"
  using and_mask_dvd_nat [of 3 p] by (simp add: aligned8_def mask_numeral)

lemma unat_add64: "unat a + unat b < 2 ^ 64 \<Longrightarrow> unat (a + b :: 64 word) = unat a + unat b"
  using unat_add_lem [of a b] by simp

lemma unat_of_nat64: "m < 2 ^ 64 \<Longrightarrow> unat (of_nat m :: 64 word) = m"
  by (simp add: unat_of_nat)

lemma unat_add_of_nat: "unat P + m < 2 ^ 64 \<Longrightarrow> unat (P + of_nat m :: 64 word) = unat P + m"
  using unat_add64 [of P "of_nat m"] by (simp add: unat_of_nat64)

lemma and_not_7: "(x :: 64 word) AND NOT 7 = push_bit 3 (drop_bit 3 x)"
proof -
  have 7: "(7 :: 64 word) = mask 3" by (simp add: mask_numeral)
  show ?thesis unfolding 7 by (rule bit_word_eqI) (auto simp: bit_simps)
qed

lemma unat_and_not_7: "unat ((x :: 64 word) AND NOT 7) = 8 * (unat x div 8)"
proof -
  have "unat (push_bit 3 (drop_bit 3 x)) = take_bit 64 (push_bit 3 (drop_bit 3 (unat x)))"
    by (simp add: unsigned_push_bit_eq unat_drop_bit_eq)
  also have "\<dots> = push_bit 3 (drop_bit 3 (unat x))"
  proof (rule take_bit_nat_eq_self)
    have "unat x < 2 ^ 64" using unsigned_less [of x] by simp
    then show "push_bit 3 (drop_bit 3 (unat x)) < 2 ^ 64"
      by (simp add: push_bit_eq_mult drop_bit_eq_div)
  qed
  also have "\<dots> = 8 * (unat x div 8)"
    by (simp add: push_bit_eq_mult drop_bit_eq_div)
  finally show ?thesis by (simp only: and_not_7)
qed

lemma unat_alignedSize:
  assumes "unat n + 7 < 2 ^ 64"
  shows "unat (alignedSize n) = 8 * ((unat n + 7) div 8)"
proof -
  have "unat (n + 7) = unat n + 7"
    using assms unat_add64 [of n 7] by simp
  moreover have "alignedSize n = (n + 7) AND NOT 7"
    by (simp add: alignedSize_def add.commute)
  ultimately show ?thesis
    by (simp only: unat_and_not_7)
qed

lemma alignedSize_valid:
  assumes "valid_size n"
  shows "8 \<le> unat (alignedSize n)" "8 dvd unat (alignedSize n)" "unat (alignedSize n) < 2 ^ 63 + 8"
proof -
  have "n \<noteq> 0" using assms by (auto simp: valid_size_def)
  then have n: "0 < unat n" "unat n < 2 ^ 63" using assms by (simp_all add: valid_size_def unat_gt_0)
  then have "unat n + 7 < 2 ^ 64" by simp
  from unat_alignedSize [OF this] n
  show "8 \<le> unat (alignedSize n)" "8 dvd unat (alignedSize n)" "unat (alignedSize n) < 2 ^ 63 + 8"
    by presburger+
qed

lemma bump_allocate_cases:
  assumes "bp_head b \<noteq> 0 \<Longrightarrow> bp_offset b = of_nat off" "off \<le> A" "A < 2 ^ 31"
    "alignedSize n = of_nat a" "a < 2 ^ 63 + 8" "AllocSize S = of_nat A"
  shows "allocate (SimpleBumpPtr S) (b, g) n =
     (if bp_head b \<noteq> 0 \<and> off + a \<le> A
      then Inr (bp_head b + of_nat off, b\<lparr>bp_offset := of_nat (off + a)\<rparr>, g)
      else case allocate S (bp_src b, g) (of_nat A) of
             Inl e \<Rightarrow> Inl e
           | Inr (P, h', g') \<Rightarrow>
               if P = 0 then Inl NullDeref
               else if A < 8 + a then Inl BadAlloc
               else Inr (P + 8, \<lparr>bp_head = P, bp_offset = of_nat (8 + a),
                                 bp_next = (bp_next b)(P := bp_head b), bp_src = h'\<rparr>, g'))"
proof -
  have off: "off < 2 ^ 31" using assms(2,3) by simp
  have c1: "((of_nat A :: 64 word) < of_nat (off + a)) = (A < off + a)"
    using assms(3,5) off by (subst word64_of_nat_less) simp_all
  have c2: "((of_nat A :: 64 word) < of_nat (8 + a)) = (A < 8 + a)"
    using assms(3,5) by (subst word64_of_nat_less) simp_all
  have uc: "(ucast (of_nat m :: 64 word) :: 32 word) = of_nat m" for m
    by (rule ucast_of_nat_down)
  have e8: "(8 :: 64 word) + of_nat a = of_nat (8 + a)" by simp
  have e: "(of_nat off :: 64 word) + of_nat a = of_nat (off + a)" by simp
  show ?thesis
  proof (cases "bp_head b = 0")
    case True
    then show ?thesis
      by (auto simp: SimpleBumpPtr_def SimpleBumpPtr_allocate_def SimpleBumpPtr_refill_def
          assms(4,6) e8 c2 uc simp del: of_nat_add split: sum.splits)
  next
    case False
    have sc: "(scast (bp_offset b) :: 64 word) = of_nat off"
      using off by (simp add: assms(1) [OF False] scast_of_nat_small)
    show ?thesis
      by (auto simp: SimpleBumpPtr_def SimpleBumpPtr_allocate_def SimpleBumpPtr_refill_def sc
          assms(4,6) e8 e c1 c2 uc simp del: of_nat_add split: sum.splits)
  qed
qed

lemma word_gt_0x100: "(0x100 < (p :: 64 word)) = (256 < unat p)"
  by (simp add: word_less_nat_alt)

lemma PageHeap_allocate_Inr:
  "allocate (PageHeap pgsz) (u, g) m = Inr (P, u', g') \<Longrightarrow> future_pages g = P # future_pages g'"
  by (auto simp: PageHeap_def pageAlloc_def future_pages_def split: list.splits sum.splits)

lemma carve_refill:
  assumes inv: "carve_inv A pg off g U" and fp: "future_pages g = P # future_pages g'"
    and a: "8 \<le> a" "8 dvd a" "8 + a \<le> A"
  shows "carve_inv A P (8 + a) g' (insert (P + 8) U) \<and> P + 8 \<notin> U \<and> aligned8 (P + 8) \<and> 0x100 < P + 8"
proof -
  let ?rest = "future_pages g'"
  from inv fp have ok: "pages_ok A (P # ?rest)"
    and U: "\<forall>u \<in> U. aligned8 u \<and> 0x100 < u \<and> (\<forall>P' \<in> set (P # ?rest). \<not> in_page A P' u)"
    by (simp_all add: carve_inv_def)
  from ok have wf: "page_wf A P" and ap: "\<forall>P' \<in> set ?rest. apart A P P'" and ok': "pages_ok A ?rest"
    by simp_all
  have up: "unat (P + 8) = unat P + 8"
    using wf a unat_add_of_nat [of P 8] by (simp add: page_wf_def)
  have inp: "in_page A P (P + 8)"
    using a by (simp add: in_page_def up)
  have P0: "P \<noteq> 0" using wf by (auto simp: page_wf_def)
  have al: "aligned8 (P + 8)" using wf by (simp add: page_wf_def aligned8_dvd up)
  have gt: "0x100 < P + 8" using wf by (simp add: word_gt_0x100 up page_wf_def)
  have notin: "P + 8 \<notin> U" using U inp by auto
  have out: "\<forall>P' \<in> set ?rest. \<not> in_page A P' (P + 8)"
    using ap inp by (auto simp: apart_def in_page_def)
  have cur: "\<forall>u \<in> insert (P + 8) U. in_page A P u \<longrightarrow> unat u < unat P + (8 + a)"
    using U a by (auto simp: up)
  have "carve_inv A P (8 + a) g' (insert (P + 8) U)"
    unfolding carve_inv_def
    using ok' U al gt out wf ap cur a P0
    by auto
  with notin al gt show ?thesis by simp
qed

lemma carve_fit:
  assumes inv: "carve_inv A pg off g U" and pg: "pg \<noteq> 0" and a: "8 \<le> a" "8 dvd a" "off + a \<le> A"
  shows "carve_inv A pg (off + a) g (insert (pg + of_nat off) U) \<and> pg + of_nat off \<notin> U \<and>
         aligned8 (pg + of_nat off) \<and> 0x100 < pg + of_nat off"
proof -
  let ?p = "pg + of_nat off"
  from inv pg have ok: "pages_ok A (future_pages g)"
    and U: "\<forall>u \<in> U. aligned8 u \<and> 0x100 < u \<and> (\<forall>P \<in> set (future_pages g). \<not> in_page A P u)"
    and wf: "page_wf A pg" and ap: "\<forall>P \<in> set (future_pages g). apart A pg P"
    and off: "8 \<le> off" "off \<le> A" "8 dvd off"
    and cur: "\<forall>u \<in> U. in_page A pg u \<longrightarrow> unat u < unat pg + off"
    by (simp_all add: carve_inv_def)
  have up: "unat ?p = unat pg + off"
    using wf a by (intro unat_add_of_nat) (simp add: page_wf_def)
  have inp: "in_page A pg ?p"
    using a by (simp add: in_page_def up)
  have alp: "aligned8 ?p" using wf off(3) by (simp add: page_wf_def aligned8_dvd up)
  have gt: "0x100 < ?p" using wf off(1) by (simp add: word_gt_0x100 up page_wf_def)
  have notin: "?p \<notin> U" using cur inp up by auto
  have out: "\<forall>P \<in> set (future_pages g). \<not> in_page A P ?p"
    using ap inp by (auto simp: apart_def in_page_def)
  have cur': "\<forall>u \<in> insert ?p U. in_page A pg u \<longrightarrow> unat u < unat pg + (off + a)"
    using cur a(1) by (auto simp: up)
  have "carve_inv A pg (off + a) g (insert ?p U)"
    unfolding carve_inv_def
    using ok U alp gt out wf ap cur' a off pg
    by auto
  with notin alp gt show ?thesis by simp
qed

lemma bump_fresh:
  assumes inv: "bump_inv A (b, g) U" and n: "valid_size n" and A: "A < 2 ^ 31"
    and al: "allocate (SimpleBumpPtr (PageHeap (of_nat A))) (b, g) n = Inr (p, b', g')"
  shows "bump_inv A (b', g') (insert p U) \<and> p \<notin> U \<and> aligned8 p \<and> 0x100 < p"
proof -
  define a where "a = unat (alignedSize n)"
  have a: "8 \<le> a" "8 dvd a" "a < 2 ^ 63 + 8" and an: "alignedSize n = of_nat a"
    using alignedSize_valid [OF n] by (simp_all add: a_def)
  have AS: "AllocSize (PageHeap (of_nat A)) = of_nat A" by (simp add: PageHeap_def)
  from inv obtain off where off: "bp_head b \<noteq> 0 \<Longrightarrow> bp_offset b = of_nat off"
    and ci: "carve_inv A (bp_head b) off g U"
    by (auto simp: bump_inv_def)
  define off' where "off' = (if bp_head b = 0 then 0 else off)"
  have off'A: "off' \<le> A" using ci by (auto simp: off'_def carve_inv_def)
  have off': "bp_head b \<noteq> 0 \<Longrightarrow> bp_offset b = of_nat off'" using off by (simp add: off'_def)
  note ac = bump_allocate_cases [where off = off' and A = A and a = a, OF off' off'A A an a(3) AS]
  show ?thesis
  proof (cases "bp_head b \<noteq> 0 \<and> off' + a \<le> A")
    case True
    then have oo: "off' = off" by (simp add: off'_def)
    from al True have res: "p = bp_head b + of_nat off" "b' = b\<lparr>bp_offset := of_nat (off + a)\<rparr>" "g' = g"
      by (simp_all add: ac oo)
    from carve_fit [OF ci _ a(1,2), of ] True oo
    have "carve_inv A (bp_head b) (off + a) g (insert p U) \<and> p \<notin> U \<and> aligned8 p \<and> 0x100 < p"
      by (simp add: res(1))
    then show ?thesis
      unfolding bump_inv_def res(2,3) by (auto intro!: exI [of _ "off + a"])
  next
    case False
    with al obtain P h' where
      r: "allocate (PageHeap (of_nat A)) (bp_src b, g) (of_nat A) = Inr (P, h', g')"
      and res: "p = P + 8" "bp_head b' = P" "bp_offset b' = of_nat (8 + a)" "8 + a \<le> A"
      by (auto simp: ac split: sum.splits if_splits)
    from PageHeap_allocate_Inr [OF r] have fp: "future_pages g = P # future_pages g'" .
    from carve_refill [OF ci fp a(1,2) res(4)]
    show ?thesis
      unfolding bump_inv_def res(1) using res(2,3) by (auto intro!: exI [of _ "8 + a"])
  qed
qed

lemma unat_ucast_32_64: "unat (ucast (E :: 32 word) :: 64 word) = unat E"
proof -
  have "unat E < 2 ^ 32" using unsigned_less [of E] by simp
  then have "unat E < 2 ^ 64" by simp
  then show ?thesis by (simp add: unsigned_ucast_eq take_bit_nat_eq_self)
qed

lemma unat_E_bound: "unat (E :: 32 word) < 2 ^ 32"
  using unsigned_less [of E] by simp

lemma unat_mult64: "unat a * unat b < 2 ^ 64 \<Longrightarrow> unat (a * b :: 64 word) = unat a * unat b"
  using unat_mult_lem [of a b] by simp

lemma unat_sizeof_TyEq: "unat (sizeof_TyEq E) = 8 * ((unat E + 7) div 8)"
proof -
  let ?e = "ucast E :: 64 word"
  have e: "unat ?e = unat E" by (rule unat_ucast_32_64)
  have b: "unat E < 2 ^ 32" by (rule unat_E_bound)
  have 1: "unat (alignedSize ?e) = 8 * ((unat E + 7) div 8)"
    using b by (subst unat_alignedSize) (simp_all add: e)
  have 2: "unat (alignedSize ?e div 8) = (unat E + 7) div 8"
    by (simp add: unat_div 1)
  have 3: "unat (alignedSize ?e div 8 * 8) = (unat E + 7) div 8 * 8"
    using b by (subst unat_mult64) (simp_all add: 2)
  have "sizeof_TyEq E = alignedSize ?e div 8 * 8"
    by (simp add: sizeof_TyEq_def alignedSize_def)
  then show ?thesis using 3 by simp
qed

lemma unat_TotalFit:
  assumes "8 + unat (sizeof_TyEq E) \<le> A" "A < 2 ^ 31"
  shows "unat (TotalFit E (of_nat A)) =
           (8 * ((A - (8 + unat (sizeof_TyEq E))) div 8)) div unat (sizeof_TyEq E) + 1"
proof -
  let ?T = "unat (sizeof_TyEq E)"
  have A: "unat (of_nat A :: 64 word) = A" using assms(2) by (simp add: unat_of_nat64)
  have 1: "unat (8 + sizeof_TyEq E) = 8 + ?T"
    using assms by (subst unat_add64) simp_all
  have le: "8 + sizeof_TyEq E \<le> of_nat A"
    using assms by (simp add: word_le_nat_alt 1 A)
  have 2: "unat (of_nat A - (8 + sizeof_TyEq E)) = A - (8 + ?T)"
    by (simp add: unat_sub [OF le] 1 A)
  have 3: "unat ((of_nat A - (8 + sizeof_TyEq E)) AND NOT 7) = 8 * ((A - (8 + ?T)) div 8)"
    by (simp only: unat_and_not_7 2)
  have 4: "unat (((of_nat A - (8 + sizeof_TyEq E)) AND NOT 7) div sizeof_TyEq E) =
             8 * ((A - (8 + ?T)) div 8) div ?T"
    by (simp only: unat_div 3)
  have 5: "unat (((of_nat A - (8 + sizeof_TyEq E)) AND NOT 7) div sizeof_TyEq E + 1) =
             8 * ((A - (8 + ?T)) div 8) div ?T + 1"
  proof -
    have "8 * ((A - (8 + ?T)) div 8) div ?T \<le> 8 * ((A - (8 + ?T)) div 8)"
      by (rule div_le_dividend)
    also have "\<dots> \<le> A" by presburger
    finally have "8 * ((A - (8 + ?T)) div 8) div ?T + 1 < 2 ^ 64"
      using assms(2) by simp
    then show ?thesis
      using unat_add64 [of "((of_nat A - (8 + sizeof_TyEq E)) AND NOT 7) div sizeof_TyEq E" 1]
      by (simp only: 4) simp
  qed
  have "TotalFit E (of_nat A) = ((of_nat A - (8 + sizeof_TyEq E)) AND NOT 7) div sizeof_TyEq E + 1"
    by (simp add: TotalFit_def Let_def)
  with 5 show ?thesis by (simp only:)
qed

lemma fit_arith:
  fixes T A :: nat
  assumes "8 + T \<le> A"
  shows "8 + (8 * ((A - (8 + T)) div 8) div T + 1) * T \<le> A"
proof -
  define R where "R = 8 * ((A - (8 + T)) div 8)"
  have 1: "R div T * T \<le> R" by simp
  have 2: "R \<le> A - (8 + T)" unfolding R_def by presburger
  have "(R div T + 1) * T = R div T * T + T" by (simp add: algebra_simps)
  with 1 2 assms have "8 + (R div T + 1) * T \<le> A" by linarith
  then show ?thesis by (simp only: R_def)
qed

lemma TotalFit_fits:
  assumes "8 + unat (sizeof_TyEq E) \<le> A" "A < 2 ^ 31"
  shows "8 + unat (TotalFit E (of_nat A)) * unat (sizeof_TyEq E) \<le> A" "1 \<le> unat (TotalFit E (of_nat A))"
proof -
  show "8 + unat (TotalFit E (of_nat A)) * unat (sizeof_TyEq E) \<le> A"
    by (simp only: unat_TotalFit [OF assms(1,2)] fit_arith [OF assms(1)])
  show "1 \<le> unat (TotalFit E (of_nat A))"
    by (simp only: unat_TotalFit [OF assms(1,2)])
qed

lemma word64_of_nat_eq:
  "m < 2 ^ 64 \<Longrightarrow> n < 2 ^ 64 \<Longrightarrow> ((of_nat m :: 64 word) = of_nat n) = (m = n)"
  by (simp add: word_of_nat_eq_iff take_bit_nat_eq_self)

lemma block_allocate_cases:
  assumes "blk_head b \<noteq> 0 \<Longrightarrow> headIndex b = of_nat idx" "idx \<le> unat (TotalFit E (AllocSize S))"
    "unat (TotalFit E (AllocSize S)) < 2 ^ 31" "AllocSize S = of_nat A"
  shows "allocate (BlockAlloc E S) (b, g) (ucast E) =
     (if blk_head b \<noteq> 0 \<and> idx \<noteq> unat (TotalFit E (AllocSize S))
      then Inr (blk_head b + 8 + of_nat (idx * unat (sizeof_TyEq E)), b\<lparr>headIndex := of_nat (idx + 1)\<rparr>, g)
      else case allocate S (blk_src b, g) (of_nat A) of
             Inl e \<Rightarrow> Inl e
           | Inr (P, h', g') \<Rightarrow>
               if P = 0 then Inl NullDeref
               else Inr (P + 8, \<lparr>blk_head = P, headIndex = 1,
                                 blk_next = (blk_next b)(P := blk_head b), blk_src = h'\<rparr>, g'))"
proof -
  let ?TF = "unat (TotalFit E (AllocSize S))"
  have idx: "idx < 2 ^ 31" using assms(2,3) by simp
  have tf: "TotalFit E (AllocSize S) = of_nat ?TF" by simp
  have eq: "((of_nat idx :: 64 word) = TotalFit E (AllocSize S)) = (idx = ?TF)"
    using idx assms(3) by (subst tf, subst word64_of_nat_eq) simp_all
  have mul: "(of_nat idx :: 64 word) * sizeof_TyEq E = of_nat (idx * unat (sizeof_TyEq E))"
    by simp
  show ?thesis
  proof (cases "blk_head b = 0")
    case True
    then show ?thesis
      by (auto simp: BlockAlloc_def BlockAlloc_allocate_def BlockAlloc_refill_def assms(4)
          split: sum.splits)
  next
    case False
    have sc: "(scast (headIndex b) :: 64 word) = of_nat idx"
      using idx by (simp add: assms(1) [OF False] scast_of_nat_small)
    have inc: "headIndex b + 1 = of_nat (idx + 1)"
      by (simp add: assms(1) [OF False])
    show ?thesis
      using False
      by (auto simp: BlockAlloc_def BlockAlloc_allocate_def BlockAlloc_refill_def sc eq mul inc
          assms(4) [symmetric] simp del: of_nat_mult of_nat_add of_nat_Suc split: sum.splits)
  qed
qed

lemma block_fresh:
  assumes inv: "block_inv A E (b, g) U" and A: "A < 2 ^ 31" and E: "0 < E"
    and fit: "8 + unat (sizeof_TyEq E) \<le> A"
    and al: "allocate (BlockAlloc E (PageHeap (of_nat A))) (b, g) n = Inr (p, b', g')"
  shows "block_inv A E (b', g') (insert p U) \<and> p \<notin> U \<and> aligned8 p \<and> 0x100 < p"
proof -
  let ?T = "unat (sizeof_TyEq E)"
  let ?TF = "unat (TotalFit E (of_nat A))"
  have "E \<noteq> 0" using E by auto
  then have "0 < unat E" by (simp add: unat_gt_0)
  then have T: "8 \<le> ?T" "8 dvd ?T"
    unfolding unat_sizeof_TyEq by presburger+
  have AS: "AllocSize (PageHeap (of_nat A)) = of_nat A" by (simp add: PageHeap_def)
  note tf = TotalFit_fits [OF fit A]
  have tfb: "?TF < 2 ^ 31"
  proof -
    have "?TF * 1 \<le> ?TF * ?T" using T(1) by (intro mult_le_mono) simp_all
    then have "?TF \<le> ?TF * ?T" by (simp only: mult_1_right)
    with tf(1) A show ?thesis by linarith
  qed
  have n: "n = ucast E"
    using al by (auto simp: BlockAlloc_def BlockAlloc_allocate_def split: if_splits)
  from inv obtain idx where idx: "blk_head b \<noteq> 0 \<Longrightarrow> headIndex b = of_nat idx" "idx \<le> ?TF"
    and ci: "carve_inv A (blk_head b) (8 + idx * ?T) g U"
    by (auto simp: block_inv_def)
  note ac = block_allocate_cases [where S = "PageHeap (of_nat A)" and E = E and A = A and idx = idx,
      unfolded AS, OF idx tfb refl]
  show ?thesis
  proof (cases "blk_head b \<noteq> 0 \<and> idx \<noteq> ?TF")
    case True
    from al True have res: "p = blk_head b + 8 + of_nat (idx * ?T)" "b' = b\<lparr>headIndex := of_nat (idx + 1)\<rparr>" "g' = g"
      by (simp_all add: ac n)
    have lt: "idx + 1 \<le> ?TF" using True idx(2) by simp
    then have "(idx + 1) * ?T \<le> ?TF * ?T" by (intro mult_le_mono) simp_all
    with tf(1) have le: "(8 + idx * ?T) + ?T \<le> A" by (simp add: algebra_simps)
    have pp: "blk_head b + of_nat (8 + idx * ?T) = p"
      by (simp add: res(1) add.assoc del: of_nat_mult)
    from carve_fit [OF ci _ T le] True
    have "carve_inv A (blk_head b) (8 + idx * ?T + ?T) g (insert p U) \<and> p \<notin> U \<and> aligned8 p \<and> 0x100 < p"
      by (simp only: pp) simp
    moreover have "8 + idx * ?T + ?T = 8 + (idx + 1) * ?T" by (simp add: algebra_simps)
    ultimately show ?thesis
      unfolding block_inv_def res(2,3) using lt by (auto intro!: exI [of _ "idx + 1"])
  next
    case False
    with al obtain P h' where
      r: "allocate (PageHeap (of_nat A)) (blk_src b, g) (of_nat A) = Inr (P, h', g')"
      and res: "p = P + 8" "blk_head b' = P" "headIndex b' = 1"
      by (auto simp: ac n split: sum.splits if_splits)
    from PageHeap_allocate_Inr [OF r] have fp: "future_pages g = P # future_pages g'" .
    from carve_refill [OF ci fp T fit]
    show ?thesis
      unfolding block_inv_def res(1) using res(2,3) tf(2) by (auto intro!: exI [of _ 1])
  qed
qed

lemma heap_spec_allocate:
  "heap_spec H V Inv \<Longrightarrow> Inv s L \<Longrightarrow> V n \<Longrightarrow> allocate H s n = Inr (p, s') \<Longrightarrow>
   Inv s' (insert p L) \<and> p \<notin> L \<and> aligned8 p \<and> 0x100 < p"
  unfolding heap_spec_def by blast

lemma heap_spec_deallocate:
  "heap_spec H V Inv \<Longrightarrow> Inv s L \<Longrightarrow> p \<in> L \<Longrightarrow> \<exists>s'. deallocate H s p n = Inr s' \<and> Inv s' (L - {p})"
  unfolding heap_spec_def by blast

lemma reach_inv:
  assumes "heap_spec H V Inv" "Inv s0 {}" "reach H V s0 s L"
  shows "Inv s L"
  using assms(3)
proof (induction rule: reach.induct)
  case reach_init
  then show ?case by (rule assms(2))
next
  case (reach_allocate s L n p s')
  then show ?case using heap_spec_allocate [OF assms(1)] by blast
next
  case (reach_deallocate s L p n s')
  from heap_spec_deallocate [OF assms(1) reach_deallocate.IH reach_deallocate.hyps(2), of n]
  show ?case using reach_deallocate.hyps(3) by auto
qed

lemma fresh_spec_allocate:
  "fresh_spec X V SInv \<Longrightarrow> SInv s U \<Longrightarrow> V n \<Longrightarrow> allocate X s n = Inr (p, s') \<Longrightarrow>
   SInv s' (insert p U) \<and> p \<notin> U \<and> aligned8 p \<and> 0x100 < p"
  unfolding fresh_spec_def by blast

lemma heap_spec_issued:
  assumes "fresh_spec X V SInv" "\<forall>s p n. deallocate X s p n = Inr s"
  shows "heap_spec X V (issued_inv SInv)"
proof -
  have A: "issued_inv SInv s' (insert p L) \<and> p \<notin> L \<and> aligned8 p \<and> 0x100 < p"
    if "issued_inv SInv s L" "V n" "allocate X s n = Inr (p, s')" for s L n p s'
  proof -
    from that(1) obtain U where U: "L \<subseteq> U" "SInv s U"
      by (auto simp: issued_inv_def)
    from fresh_spec_allocate [OF assms(1) U(2) that(2,3)] U(1)
    show ?thesis
      by (auto simp: issued_inv_def intro!: exI [of _ "insert p U"])
  qed
  have B: "\<exists>s'. deallocate X s p n = Inr s' \<and> issued_inv SInv s' (L - {p})"
    if "issued_inv SInv s L" "p \<in> L" for s L p n
  proof -
    from that(1) obtain U where U: "L \<subseteq> U" "SInv s U"
      by (auto simp: issued_inv_def)
    have "deallocate X s p n = Inr s" using assms(2) by blast
    moreover have "issued_inv SInv s (L - {p})"
      unfolding issued_inv_def using U by blast
    ultimately show ?thesis by blast
  qed
  show ?thesis
    unfolding heap_spec_def using A B by blast
qed

lemma heap_spec_FreeListHeap:
  assumes "fresh_spec X V SInv"
  shows "heap_spec (FreeListHeap X) V (fl_inv SInv)"
proof -
  have A: "fl_inv SInv s' (insert p L) \<and> p \<notin> L \<and> aligned8 p \<and> 0x100 < p"
    if h: "fl_inv SInv s L" and n: "V n" and a0: "allocate (FreeListHeap X) s n = Inr (p, s')"
    for s :: "'a FreeListHeap \<times> sys" and L n p s'
  proof -
    obtain f g where s: "s = (f, g)" by (cases s)
    from h s obtain U ps where inv: "SInv (fl_src f, g) U" "fl_chain (fl_next f) (fl_head f) ps"
      "distinct ps" "set ps \<subseteq> U" "L \<subseteq> U" "set ps \<inter> L = {}" "\<forall>u \<in> U. aligned8 u \<and> 0x100 < u"
      by (auto simp: fl_inv_def)
    from a0 s have a: "allocate (FreeListHeap X) (f, g) n = Inr (p, s')" by simp
    show ?thesis
    proof (cases ps)
      case Nil
      with inv(2) have h0: "fl_head f = 0" by simp
      with a obtain h' g' where d: "allocate X (fl_src f, g) n = Inr (p, h', g')"
        and s': "s' = (f\<lparr>fl_src := h'\<rparr>, g')"
        by (auto simp: FreeListHeap_def FreeListHeap_allocate_def split: sum.splits)
      from fresh_spec_allocate [OF assms inv(1) n d]
      have f: "SInv (h', g') (insert p U)" "p \<notin> U" "aligned8 p" "0x100 < p" by simp_all
      have "fl_inv SInv s' (insert p L)"
        unfolding fl_inv_def s'
        using f inv h0 Nil
        by (auto intro!: exI [of _ "insert p U"] exI [of _ "[]"])
      with f inv(5) show ?thesis by auto
    next
      case (Cons x xs)
      with inv(2) have hx: "fl_head f = x" "x \<noteq> 0" and ch: "fl_chain (fl_next f) (fl_next f x) xs"
        by simp_all
      from a hx have p: "p = x" and s': "s' = (f\<lparr>fl_head := fl_next f x\<rparr>, g)"
        by (auto simp: FreeListHeap_def FreeListHeap_allocate_def)
      have xU: "x \<in> U" "x \<notin> L" "x \<notin> set xs" using inv(3,4,6) Cons by auto
      have "fl_inv SInv s' (insert p L)"
        unfolding fl_inv_def s' p
        using inv Cons ch xU
        by (auto intro!: exI [of _ U] exI [of _ xs])
      with xU inv(7) p show ?thesis by auto
    qed
  qed
  have B: "\<exists>s'. deallocate (FreeListHeap X) s p n = Inr s' \<and> fl_inv SInv s' (L - {p})"
    if h: "fl_inv SInv s L" and pL: "p \<in> L"
    for s :: "'a FreeListHeap \<times> sys" and L p n
  proof -
    obtain f g where s: "s = (f, g)" by (cases s)
    from h s obtain U ps where inv: "SInv (fl_src f, g) U" "fl_chain (fl_next f) (fl_head f) ps"
      "distinct ps" "set ps \<subseteq> U" "L \<subseteq> U" "set ps \<inter> L = {}" "\<forall>u \<in> U. aligned8 u \<and> 0x100 < u"
      by (auto simp: fl_inv_def)
    from pL have pU: "p \<in> U" "p \<notin> set ps" using inv(5,6) by auto
    then have p: "0x100 < p" "p \<noteq> 0" using inv(7) by auto
    let ?f' = "f\<lparr>fl_next := (fl_next f)(p := fl_head f), fl_head := p\<rparr>"
    have d: "deallocate (FreeListHeap X) s p n = Inr (?f', g)"
      using p by (simp add: s FreeListHeap_def FreeListHeap_deallocate_def)
    have "fl_inv SInv (?f', g) (L - {p})"
      unfolding fl_inv_def
      using inv pU p
      by (auto simp: fl_chain_upd intro!: exI [of _ U] exI [of _ "p # ps"])
    with d show ?thesis by blast
  qed
  show ?thesis
    unfolding heap_spec_def using A B by blast
qed

lemma fresh_spec_bump:
  "A < 2 ^ 31 \<Longrightarrow> fresh_spec (SimpleBumpPtr (PageHeap (of_nat A))) valid_size (bump_inv A)"
  unfolding fresh_spec_def
proof (intro allI impI)
  fix s U n p s'
  assume A: "A < 2 ^ 31"
    and h: "bump_inv A s U \<and> valid_size n \<and>
            allocate (SimpleBumpPtr (PageHeap (of_nat A))) s n = Inr (p, s')"
  obtain b g where s: "s = (b, g)" by (cases s)
  obtain b' g' where s': "s' = (b', g')" by (cases s')
  from h show "bump_inv A s' (insert p U) \<and> p \<notin> U \<and> aligned8 p \<and> 0x100 < p"
    unfolding s s' using bump_fresh [OF _ _ A] by blast
qed

lemma bump_deallocate: "deallocate (SimpleBumpPtr S) s p n = Inr s"
  by (simp add: SimpleBumpPtr_def)

lemma heap_spec_ThreadAwarePrivateHeap:
  assumes "heap_spec H V Inv"
  shows "heap_spec (ThreadAwarePrivateHeap tid H) V (thread_inv tid Inv)"
proof -
  have A: "thread_inv tid Inv s' (insert p L) \<and> p \<notin> L \<and> aligned8 p \<and> 0x100 < p"
    if "thread_inv tid Inv s L" "V n" "allocate (ThreadAwarePrivateHeap tid H) s n = Inr (p, s')"
    for s L n p s'
  proof -
    obtain hs g where s: "s = (hs, g)" by (cases s)
    from that(3) s obtain h' g' where a: "allocate H (hs tid, g) n = Inr (p, h', g')"
      and s': "s' = (hs(tid := h'), g')"
      by (auto simp: ThreadAwarePrivateHeap_def split: sum.splits)
    from heap_spec_allocate [OF assms _ that(2) a, of L] that(1) s
    show ?thesis by (simp add: thread_inv_def s')
  qed
  have B: "\<exists>s'. deallocate (ThreadAwarePrivateHeap tid H) s p n = Inr s' \<and> thread_inv tid Inv s' (L - {p})"
    if "thread_inv tid Inv s L" "p \<in> L" for s L p n
  proof -
    obtain hs g where s: "s = (hs, g)" by (cases s)
    from heap_spec_deallocate [OF assms _ that(2), of "(hs tid, g)" n] that(1) s
    obtain h' g' where d: "deallocate H (hs tid, g) p n = Inr (h', g')" and i: "Inv (h', g') (L - {p})"
      by (auto simp: thread_inv_def)
    have "deallocate (ThreadAwarePrivateHeap tid H) s p n = Inr (hs(tid := h'), g')"
      by (simp add: s ThreadAwarePrivateHeap_def d)
    moreover have "thread_inv tid Inv (hs(tid := h'), g') (L - {p})"
      using i by (simp add: thread_inv_def)
    ultimately show ?thesis by blast
  qed
  show ?thesis unfolding heap_spec_def using A B by blast
qed

lemma reach_allocate_fresh:
  assumes "heap_spec H V Inv" "Inv s0 {}" "reach H V s0 s L" "V n" "allocate H s n = Inr (p, s')"
  shows "aligned8 p \<and> p \<noteq> 0 \<and> p \<notin> L"
proof -
  from reach_inv [OF assms(1-3)] have "Inv s L" .
  from heap_spec_allocate [OF assms(1) this assms(4,5)]
  show ?thesis by auto
qed

lemma bump_inv_init: "pages_ok A (future_pages g0) \<Longrightarrow> bump_inv A (SimpleBumpPtr_init m (), g0) {}"
  by (simp add: bump_inv_def carve_inv_def SimpleBumpPtr_init_def)

lemma block_inv_init: "pages_ok A (future_pages g0) \<Longrightarrow> block_inv A E (BlockAlloc_init0 m, g0) {}"
  by (auto simp: block_inv_def carve_inv_def BlockAlloc_init0_def intro!: exI [of _ 0])

lemma fl_inv_init: "SInv (h, g0) {} \<Longrightarrow> fl_inv SInv (FreeListHeap_init m h, g0) {}"
  by (auto simp: fl_inv_def FreeListHeap_init_def intro!: exI [of _ "{}"] exI [of _ "[]"])

lemma issued_inv_init: "SInv s {} \<Longrightarrow> issued_inv SInv s {}"
  by (auto simp: issued_inv_def)

lemma block_deallocate: "deallocate (BlockAlloc E S) s p n = Inr s"
  by (simp add: BlockAlloc_def)

lemma fresh_spec_block:
  assumes "A < 2 ^ 31" "0 < E" "8 + unat (sizeof_TyEq E) \<le> A"
  shows "fresh_spec (BlockAlloc E (PageHeap (of_nat A))) (\<lambda>_. True) (block_inv A E)"
  unfolding fresh_spec_def
proof (intro allI impI)
  fix s U n p s'
  assume h: "block_inv A E s U \<and> True \<and>
            allocate (BlockAlloc E (PageHeap (of_nat A))) s n = Inr (p, s')"
  obtain b g where s: "s = (b, g)" by (cases s)
  obtain b' g' where s': "s' = (b', g')" by (cases s')
  from h show "block_inv A E s' (insert p U) \<and> p \<notin> U \<and> aligned8 p \<and> 0x100 < p"
    unfolding s s' using block_fresh [OF _ assms] by blast
qed

lemma hugePageSize_of_nat: "hugePageSize = of_nat 2097152"
  by (simp add: hugePageSize_def)

lemmas la_eval = LocalAlloc_def FreeListHeap_def FreeListHeap_allocate_def FreeListHeap_deallocate_def
  SimpleBumpPtr_def SimpleBumpPtr_allocate_def SimpleBumpPtr_refill_def PageHeap_def pageAlloc_def
  alignedSize_def sys_pages2_def LocalAlloc_init_def FreeListHeap_init_def SimpleBumpPtr_init_def

text \<open>
  Claim C2.  Let the pages that the page source hands out be well-formed for the
  page size \<open>A\<close>, and let a client make any sequence of calls \<open>allocate(s)\<close> and
  \<open>deallocate(p, s)\<close>, where every \<open>s\<close> is the size of an object and every \<open>p\<close> is
  live.  Then every pointer that \<open>allocate\<close> returns is aligned to 8 bytes, is not
  null and is not among the live pointers.  This holds for the bump pointer over
  the page source, for the freelist over it (one local heap of the sized
  allocator), for \<open>SizedAlloc\<close> itself as one thread uses it, for the block heap
  over the page source (for an element size of at least 1 whose first slot fits
  the page) and for the freelist over the block heap.
\<close>

theorem allocator_pointers_aligned_distinct:
  assumes A: "A < 2 ^ 31" and pg: "pages_ok A (future_pages g0)"
  shows
    "(\<forall>s L n p s'. reach (SimpleBumpPtr (PageHeap (of_nat A))) valid_size (SimpleBumpPtr_init m (), g0) s L \<and>
        valid_size n \<and> allocate (SimpleBumpPtr (PageHeap (of_nat A))) s n = Inr (p, s') \<longrightarrow>
        aligned8 p \<and> p \<noteq> 0 \<and> p \<notin> L) \<and>
     (\<forall>s L n p s'. reach (LocalAlloc (of_nat A)) valid_size (LocalAlloc_init m1 m, g0) s L \<and>
        valid_size n \<and> allocate (LocalAlloc (of_nat A)) s n = Inr (p, s') \<longrightarrow>
        aligned8 p \<and> p \<noteq> 0 \<and> p \<notin> L) \<and>
     (A = 2097152 \<longrightarrow>
      (\<forall>s L n p s'. reach (SizedAlloc tid) valid_size (\<lambda>_. LocalAlloc_init m1 m, g0) s L \<and>
        valid_size n \<and> allocate (SizedAlloc tid) s n = Inr (p, s') \<longrightarrow>
        aligned8 p \<and> p \<noteq> 0 \<and> p \<notin> L)) \<and>
     (0 < E \<and> 8 + unat (sizeof_TyEq E) \<le> A \<longrightarrow>
      (\<forall>s L n p s'. reach (BlockAlloc E (PageHeap (of_nat A))) (\<lambda>_. True) (BlockAlloc_init0 m, g0) s L \<and>
        allocate (BlockAlloc E (PageHeap (of_nat A))) s n = Inr (p, s') \<longrightarrow>
        aligned8 p \<and> p \<noteq> 0 \<and> p \<notin> L) \<and>
      (\<forall>s L n p s'. reach (FreeListHeap (BlockAlloc E (PageHeap (of_nat A)))) (\<lambda>_. True)
            (FreeListHeap_init m1 (BlockAlloc_init0 m), g0) s L \<and>
        allocate (FreeListHeap (BlockAlloc E (PageHeap (of_nat A)))) s n = Inr (p, s') \<longrightarrow>
        aligned8 p \<and> p \<noteq> 0 \<and> p \<notin> L))"
proof -
  note fb = fresh_spec_bump [OF A]
  have 1: "heap_spec (SimpleBumpPtr (PageHeap (of_nat A))) valid_size (issued_inv (bump_inv A))"
    by (rule heap_spec_issued [OF fb]) (simp add: bump_deallocate)
  have i1: "issued_inv (bump_inv A) (SimpleBumpPtr_init m (), g0) {}"
    by (rule issued_inv_init [where SInv = "bump_inv A"]) (rule bump_inv_init [OF pg])
  have 2: "heap_spec (LocalAlloc (of_nat A)) valid_size (fl_inv (bump_inv A))"
    unfolding LocalAlloc_def by (rule heap_spec_FreeListHeap [OF fb])
  have i2: "fl_inv (bump_inv A) (LocalAlloc_init m1 m, g0) {}"
    unfolding LocalAlloc_init_def
    by (rule fl_inv_init [where SInv = "bump_inv A"]) (rule bump_inv_init [OF pg])
  have 3: "heap_spec (SizedAlloc tid) valid_size (thread_inv tid (fl_inv (bump_inv A)))"
    if "A = 2097152"
    unfolding SizedAlloc_def hugePageSize_of_nat
    using heap_spec_ThreadAwarePrivateHeap [OF 2] that by simp
  have i3: "thread_inv tid (fl_inv (bump_inv A)) (\<lambda>_. LocalAlloc_init m1 m, g0) {}"
    using i2 by (simp add: thread_inv_def)
  have c1: "\<forall>s L n p s'. reach (SimpleBumpPtr (PageHeap (of_nat A))) valid_size (SimpleBumpPtr_init m (), g0) s L \<and>
        valid_size n \<and> allocate (SimpleBumpPtr (PageHeap (of_nat A))) s n = Inr (p, s') \<longrightarrow>
        aligned8 p \<and> p \<noteq> 0 \<and> p \<notin> L"
    using reach_allocate_fresh [OF 1 i1] by blast
  have c2: "\<forall>s L n p s'. reach (LocalAlloc (of_nat A)) valid_size (LocalAlloc_init m1 m, g0) s L \<and>
        valid_size n \<and> allocate (LocalAlloc (of_nat A)) s n = Inr (p, s') \<longrightarrow>
        aligned8 p \<and> p \<noteq> 0 \<and> p \<notin> L"
    using reach_allocate_fresh [OF 2 i2] by blast
  have c3: "A = 2097152 \<longrightarrow>
      (\<forall>s L n p s'. reach (SizedAlloc tid) valid_size (\<lambda>_. LocalAlloc_init m1 m, g0) s L \<and>
        valid_size n \<and> allocate (SizedAlloc tid) s n = Inr (p, s') \<longrightarrow>
        aligned8 p \<and> p \<noteq> 0 \<and> p \<notin> L)"
    using reach_allocate_fresh [OF 3 i3] by blast
  have c4: "0 < E \<and> 8 + unat (sizeof_TyEq E) \<le> A \<longrightarrow>
      (\<forall>s L n p s'. reach (BlockAlloc E (PageHeap (of_nat A))) (\<lambda>_. True) (BlockAlloc_init0 m, g0) s L \<and>
        allocate (BlockAlloc E (PageHeap (of_nat A))) s n = Inr (p, s') \<longrightarrow>
        aligned8 p \<and> p \<noteq> 0 \<and> p \<notin> L) \<and>
      (\<forall>s L n p s'. reach (FreeListHeap (BlockAlloc E (PageHeap (of_nat A)))) (\<lambda>_. True)
            (FreeListHeap_init m1 (BlockAlloc_init0 m), g0) s L \<and>
        allocate (FreeListHeap (BlockAlloc E (PageHeap (of_nat A)))) s n = Inr (p, s') \<longrightarrow>
        aligned8 p \<and> p \<noteq> 0 \<and> p \<notin> L)"
  proof (intro impI, elim conjE)
    assume E: "0 < E" "8 + unat (sizeof_TyEq E) \<le> A"
    note fk = fresh_spec_block [OF A E]
    have 4: "heap_spec (BlockAlloc E (PageHeap (of_nat A))) (\<lambda>_. True) (issued_inv (block_inv A E))"
      by (rule heap_spec_issued [OF fk]) (simp add: block_deallocate)
    have i4: "issued_inv (block_inv A E) (BlockAlloc_init0 m, g0) {}"
      by (rule issued_inv_init [where SInv = "block_inv A E"]) (rule block_inv_init [OF pg])
    have 5: "heap_spec (FreeListHeap (BlockAlloc E (PageHeap (of_nat A)))) (\<lambda>_. True) (fl_inv (block_inv A E))"
      by (rule heap_spec_FreeListHeap [OF fk])
    have i5: "fl_inv (block_inv A E) (FreeListHeap_init m1 (BlockAlloc_init0 m), g0) {}"
      by (rule fl_inv_init [where SInv = "block_inv A E"]) (rule block_inv_init [OF pg])
    show "(\<forall>s L n p s'. reach (BlockAlloc E (PageHeap (of_nat A))) (\<lambda>_. True) (BlockAlloc_init0 m, g0) s L \<and>
        allocate (BlockAlloc E (PageHeap (of_nat A))) s n = Inr (p, s') \<longrightarrow>
        aligned8 p \<and> p \<noteq> 0 \<and> p \<notin> L) \<and>
      (\<forall>s L n p s'. reach (FreeListHeap (BlockAlloc E (PageHeap (of_nat A)))) (\<lambda>_. True)
            (FreeListHeap_init m1 (BlockAlloc_init0 m), g0) s L \<and>
        allocate (FreeListHeap (BlockAlloc E (PageHeap (of_nat A)))) s n = Inr (p, s') \<longrightarrow>
        aligned8 p \<and> p \<noteq> 0 \<and> p \<notin> L)"
      using reach_allocate_fresh [OF 4 i4] reach_allocate_fresh [OF 5 i5] by blast
  qed
  from c1 c2 c3 c4 show ?thesis by (intro conjI)
qed

theorem allocator_pointers_aligned_distinct_witness:
  "(2097152 :: nat) < 2 ^ 31 \<and> pages_ok 2097152 (future_pages sys_pages2) \<and> valid_size 64 \<and>
   reach (LocalAlloc (of_nat 2097152)) valid_size la_s0 la_s3 {0x200048} \<and>
   (\<exists>s'. allocate (LocalAlloc (of_nat 2097152)) la_s3 64 = Inr (0x200008, s')) \<and>
   aligned8 0x200008 \<and> (0x200008 :: addr) \<noteq> 0 \<and> 0x200008 \<notin> {0x200048 :: addr}"
proof -
  let ?H = "LocalAlloc (of_nat 2097152)"
  have A: "(2097152 :: nat) < 2 ^ 31" by simp
  have pg: "pages_ok 2097152 (future_pages sys_pages2)"
    by (simp add: future_pages_def sys_pages2_def page_wf_def apart_def aligned8_def)
  have v: "valid_size 64" by (simp add: valid_size_def)
  have a1: "allocate ?H la_s0 64 = Inr (0x200008, la_s1)"
    by (simp add: la_s0_def la_s1_def la_eval)
  have a2: "allocate ?H la_s1 64 = Inr (0x200048, la_s2)"
    by (simp add: la_s1_def la_s2_def la_eval)
  have d3: "deallocate ?H la_s2 0x200008 64 = Inr la_s3"
    by (simp add: la_s2_def la_s3_def la_eval)
  have a4: "\<exists>s'. allocate ?H la_s3 64 = Inr (0x200008, s')"
    by (simp add: la_s3_def la_eval)
  have r1: "reach ?H valid_size la_s0 la_s1 {0x200008}"
    using reach_allocate [where V = valid_size, OF reach_init v a1] by simp
  have r2: "reach ?H valid_size la_s0 la_s2 {0x200048, 0x200008}"
    using reach_allocate [where V = valid_size, OF r1 v a2] by simp
  have r3: "reach ?H valid_size la_s0 la_s3 {0x200048}"
    using reach_deallocate [OF r2 _ d3] by (simp add: insert_Diff_if)
  from a4 obtain s' where a4': "allocate ?H la_s3 64 = Inr (0x200008, s')" by blast
  from allocator_pointers_aligned_distinct [OF A pg, where m = "\<lambda>_. 0" and ?m1.0 = "\<lambda>_. 0",
      THEN conjunct2, THEN conjunct1, rule_format, OF conjI [OF _ conjI [OF v a4']]] r3
  have "aligned8 0x200008 \<and> (0x200008 :: addr) \<noteq> 0 \<and> 0x200008 \<notin> {0x200048 :: addr}"
    by (simp add: la_s0_def)
  with A pg v r3 a4 show ?thesis by blast
qed

section \<open>The order of pops\<close>

lemma chunk_of_simps [simp]: "chunk_of None = []" "chunk_of (Some C) = [C]"
  by (simp_all add: chunk_of_def)

lemma items_of_simps [simp]:
  "items_of [] = []" "items_of (C # Cs) = c_items C @ items_of Cs"
  "items_of (Cs @ Ds) = items_of Cs @ items_of Ds"
  by (simp_all add: items_of_def)

lemma set_next_proj [simp]:
  "wl_heap (set_next k C w) = wl_heap w" "Q (set_next k C w) = Q w"
  "next (data (set_next k C w) k) = C" "cur (data (set_next k C w) k) = cur (data w k)"
  by (simp_all add: set_next_def)

lemma set_cur_proj [simp]:
  "wl_heap (set_cur k C w) = wl_heap w" "Q (set_cur k C w) = Q w"
  "cur (data (set_cur k C w) k) = C" "next (data (set_cur k C w) k) = next (data w k)"
  by (simp_all add: set_cur_def)

lemma pushChunk_proj [simp]:
  "wl_heap (pushChunk cfg e w C) = wl_heap w" "data (pushChunk cfg e w C) = data w"
  "Q (pushChunk cfg e w C) (Q_get cfg e) = QT_push (QT cfg) (Q w (Q_get cfg e)) C"
  "j \<noteq> Q_get cfg e \<Longrightarrow> Q (pushChunk cfg e w C) j = Q w j"
  by (simp_all add: pushChunk_def)

lemma heap_upd_proj [simp]:
  "data (w\<lparr>wl_heap := s\<rparr>) = data w" "Q (w\<lparr>wl_heap := s\<rparr>) = Q w"
  by simp_all

lemma Q_get_i_local: "Q_get_i cfg e (myEffectiveID cfg e) = Q_get cfg e"
  by (simp add: Q_get_i_def Q_get_def myEffectiveID_def)

lemma popChunk_scan_empty:
  "\<forall>i \<in> set is. Q w (Q_get_i cfg e i) = [] \<Longrightarrow> popChunk_scan cfg e w is = (None, w)"
proof (induction "is" arbitrary: w)
  case Nil
  then show ?case by simp
next
  case (Cons i "is")
  then have "popChunkByID cfg e w i = (None, w)"
    by (simp add: popChunkByID_def QT_pop_def fun_upd_idem)
  with Cons show ?case by simp
qed

lemma popChunk_empty:
  "\<forall>j. Q w j = [] \<Longrightarrow> popChunk cfg e w = (None, w)"
  unfolding popChunk_def Let_def by (rule popChunk_scan_empty) simp

lemma popChunk_local:
  "Q w (Q_get cfg e) = C # I \<Longrightarrow>
   popChunk cfg e w = (Some C, w\<lparr>Q := (Q w)(Q_get cfg e := I)\<rparr>)"
  by (simp add: popChunk_def Let_def popChunkByID_def QT_pop_def Q_get_i_local)

lemma mkChunk_spec:
  assumes "heap_spec H V Inv" "V csz" "Inv s L" "mkChunk H csz s = Inr (C0, s')"
  shows "c_items C0 = [] \<and> c_addr C0 \<notin> L \<and> Inv s' (insert (c_addr C0) L)"
proof -
  from assms(4) obtain p where a: "allocate H s csz = Inr (p, s')" and C0: "C0 = \<lparr>c_addr = p, c_items = []\<rparr>"
    by (auto simp: mkChunk_def split: sum.splits if_splits)
  from heap_spec_allocate [OF assms(1,3,2) a] C0 show ?thesis by simp
qed

lemma delChunk_spec:
  assumes "heap_spec H V Inv" "Inv s L" "c_addr C \<in> L"
  shows "\<exists>s'. delChunk H csz s C = Inr s' \<and> Inv s' (L - {c_addr C})"
  using heap_spec_deallocate [OF assms] by (simp add: delChunk_def)

lemma emplacei_inv:
  fixes w :: "('a, 'h) ChunkedMaster"
  assumes hs: "heap_spec H V Inv" and V: "V csz" and cs: "1 \<le> ChunkSize cfg"
    and inv: "wl_inv Inv cfg e w" and em: "emplacei H csz cfg e w v = Inr w'"
  shows "wl_inv Inv cfg e w' \<and>
         (QT cfg = ConExtLinkedQueue \<longrightarrow> items_fifo cfg e w' = items_fifo cfg e w @ [v]) \<and>
         (QT cfg = ConExtLinkedStack \<longrightarrow> items_lifo cfg e w' = items_lifo cfg e w @ [v])"
proof -
  let ?k = "data_get cfg e"
  let ?j = "Q_get cfg e"
  let ?L = "set (map c_addr (wl_chunks cfg e w))"
  from inv have d: "distinct (map c_addr (wl_chunks cfg e w))" and hI: "Inv (wl_heap w) ?L"
    and ne: "\<forall>C \<in> set (Q w ?j). c_items C \<noteq> []" and oth: "\<forall>j. j \<noteq> ?j \<longrightarrow> Q w j = []"
    by (simp_all add: wl_inv_def)
  have fresh: ?thesis
    if mk: "mkChunk H csz (wl_heap w) = Inr (C0, s')"
      and w': "w' = set_next ?k (Some (C0\<lparr>c_items := [v]\<rparr>)) (w1\<lparr>wl_heap := s'\<rparr>)"
      and w1: "wl_heap w1 = wl_heap w" "data w1 = data w" "\<forall>j. j \<noteq> ?j \<longrightarrow> Q w1 j = Q w j"
         "set (map c_addr (chunk_of (next (data w ?k)) @ Q w ?j)) = set (map c_addr (Q w1 ?j))"
         "distinct (map c_addr (chunk_of (next (data w ?k)) @ Q w ?j)) = distinct (map c_addr (Q w1 ?j))"
         "\<forall>C \<in> set (Q w1 ?j). c_items C \<noteq> []"
         "items_of (Q w1 ?j) = (if QT cfg = ConExtLinkedQueue then items_of (Q w ?j) @ items_of (chunk_of (next (data w ?k)))
                               else items_of (chunk_of (next (data w ?k))) @ items_of (Q w ?j))"
         "items_of (rev (Q w1 ?j)) = (if QT cfg = ConExtLinkedQueue then items_of (chunk_of (next (data w ?k))) @ items_of (rev (Q w ?j))
                               else items_of (rev (Q w ?j)) @ items_of (chunk_of (next (data w ?k))))"
    for C0 s' and w1 :: "('a, 'h) ChunkedMaster"
  proof -
    from mkChunk_spec [OF hs V hI mk]
    have C0: "c_items C0 = []" "c_addr C0 \<notin> ?L" "Inv s' (insert (c_addr C0) ?L)" by simp_all
    have ch: "wl_chunks cfg e w' = chunk_of (cur (data w ?k)) @ [C0\<lparr>c_items := [v]\<rparr>] @ Q w1 ?j"
      by (simp add: wl_chunks_def w' w1)
    have L': "set (map c_addr (wl_chunks cfg e w')) = insert (c_addr C0) ?L"
      unfolding ch using w1(4) by (auto simp: wl_chunks_def)
    have d': "distinct (map c_addr (wl_chunks cfg e w'))"
      unfolding ch using d C0(2) w1(4,5) by (auto simp: wl_chunks_def)
    have "wl_inv Inv cfg e w'"
      unfolding wl_inv_def L' using d' C0(3) w1(3,6) oth
      by (simp add: w')
    moreover have "QT cfg = ConExtLinkedQueue \<longrightarrow> items_fifo cfg e w' = items_fifo cfg e w @ [v]"
      by (simp add: items_fifo_def w' w1)
    moreover have "QT cfg = ConExtLinkedStack \<longrightarrow> items_lifo cfg e w' = items_lifo cfg e w @ [v]"
      by (simp add: items_lifo_def w' w1)
    ultimately show ?thesis by simp
  qed
  show ?thesis
  proof (cases "next (data w ?k)")
    case None
    from em obtain C0 s' where mk: "mkChunk H csz (wl_heap w) = Inr (C0, s')"
      and w': "w' = set_next ?k (Some (C0\<lparr>c_items := [v]\<rparr>)) (w\<lparr>wl_heap := s'\<rparr>)"
      unfolding emplacei_absent [OF None cs] by (auto split: sum.splits)
    show ?thesis
      by (rule fresh [OF mk w']) (use None ne in \<open>simp_all\<close>)
  next
    case (Some C)
    show ?thesis
    proof (cases "ring_full (ChunkSize cfg) C")
      case True
      from em obtain C0 s' where mk: "mkChunk H csz (wl_heap w) = Inr (C0, s')"
        and w': "w' = set_next ?k (Some (C0\<lparr>c_items := [v]\<rparr>)) ((pushChunk cfg e w C)\<lparr>wl_heap := s'\<rparr>)"
        unfolding emplacei_full [OF Some True cs] by (auto split: sum.splits)
      have Cne: "c_items C \<noteq> []" using True cs by (auto simp: ring_full_def)
      show ?thesis
        by (rule fresh [OF mk w']) (use Some ne Cne in \<open>auto simp: QT_push_def split: QT.splits\<close>)
    next
      case False
      from em have w': "w' = set_next ?k (Some (C\<lparr>c_items := c_items C @ [v]\<rparr>)) w"
        unfolding emplacei_not_full [OF Some False] by simp
      have ch: "map c_addr (wl_chunks cfg e w') = map c_addr (wl_chunks cfg e w)"
        by (simp add: wl_chunks_def w' Some)
      have "wl_inv Inv cfg e w'"
        unfolding wl_inv_def ch using d hI ne oth by (simp add: w')
      then show ?thesis
        by (simp add: items_fifo_def items_lifo_def w' Some)
    qed
  qed
qed

lemma del_cur_spec:
  fixes w :: "('a, 'h) ChunkedMaster"
  assumes hs: "heap_spec H V Inv" and inv: "wl_inv Inv cfg e w"
  shows "\<exists>s'. (case cur (data w (data_get cfg e)) of
                 Some C \<Rightarrow> delChunk H csz (wl_heap w) C
               | None \<Rightarrow> Inr (wl_heap w)) = Inr s' \<and>
              Inv s' (set (map c_addr (chunk_of (next (data w (data_get cfg e))) @ Q w (Q_get cfg e))))"
proof (cases "cur (data w (data_get cfg e))")
  case None
  with inv show ?thesis by (simp add: wl_inv_def wl_chunks_def)
next
  case (Some C)
  let ?rest = "chunk_of (next (data w (data_get cfg e))) @ Q w (Q_get cfg e)"
  from inv Some have d: "distinct (c_addr C # map c_addr ?rest)"
    and I: "Inv (wl_heap w) (set (c_addr C # map c_addr ?rest))"
    by (simp_all add: wl_inv_def wl_chunks_def)
  have "c_addr C \<in> set (c_addr C # map c_addr ?rest)" by simp
  from delChunk_spec [OF hs I this, of csz]
  obtain s' where del: "delChunk H csz (wl_heap w) C = Inr s'"
    and I': "Inv s' (set (c_addr C # map c_addr ?rest) - {c_addr C})"
    by blast
  have "set (c_addr C # map c_addr ?rest) - {c_addr C} = set (map c_addr ?rest)"
    using d by auto
  with del I' Some show ?thesis by simp
qed

lemma del_next_spec:
  fixes w :: "('a, 'h) ChunkedMaster"
  assumes hs: "heap_spec H V Inv" and inv: "wl_inv Inv cfg e w"
  shows "\<exists>s'. (case next (data w (data_get cfg e)) of
                 Some C \<Rightarrow> delChunk H csz (wl_heap w) C
               | None \<Rightarrow> Inr (wl_heap w)) = Inr s' \<and>
              Inv s' (set (map c_addr (chunk_of (cur (data w (data_get cfg e))) @ Q w (Q_get cfg e))))"
proof (cases "next (data w (data_get cfg e))")
  case None
  with inv show ?thesis by (simp add: wl_inv_def wl_chunks_def)
next
  case (Some C)
  let ?c = "chunk_of (cur (data w (data_get cfg e)))"
  let ?q = "Q w (Q_get cfg e)"
  from inv Some have d: "distinct (map c_addr (?c @ C # ?q))"
    and I: "Inv (wl_heap w) (set (map c_addr (?c @ C # ?q)))"
    by (simp_all add: wl_inv_def wl_chunks_def)
  have "c_addr C \<in> set (map c_addr (?c @ C # ?q))" by simp
  from delChunk_spec [OF hs I this, of csz]
  obtain s' where del: "delChunk H csz (wl_heap w) C = Inr s'"
    and I': "Inv s' (set (map c_addr (?c @ C # ?q)) - {c_addr C})"
    by blast
  have "set (map c_addr (?c @ C # ?q)) - {c_addr C} = set (map c_addr (?c @ ?q))"
    using d by auto
  with del I' Some show ?thesis by simp
qed

lemma pop_fifo:
  fixes w :: "('a, 'h) ChunkedMaster"
  assumes hs: "heap_spec H V Inv" and inv: "wl_inv Inv cfg e w" and fifo: "\<not> IsStack cfg"
  shows "\<exists>r w'. pop H csz cfg e w = Inr (r, w') \<and> wl_inv Inv cfg e w' \<and>
           (case items_fifo cfg e w of
              [] \<Rightarrow> r = None \<and> items_fifo cfg e w' = []
            | x # xs \<Rightarrow> r = Some x \<and> items_fifo cfg e w' = xs)"
proof -
  let ?k = "data_get cfg e"
  let ?j = "Q_get cfg e"
  let ?n = "data w ?k"
  from inv have d: "distinct (map c_addr (wl_chunks cfg e w))"
    and hI: "Inv (wl_heap w) (set (map c_addr (wl_chunks cfg e w)))"
    and ne: "\<forall>C \<in> set (Q w ?j). c_items C \<noteq> []" and oth: "\<forall>j. j \<noteq> ?j \<longrightarrow> Q w j = []"
    by (simp_all add: wl_inv_def)
  show ?thesis
  proof (cases "case cur ?n of None \<Rightarrow> None | Some C \<Rightarrow> extract_front C")
    case (Some r)
    then obtain C x xs where c: "cur ?n = Some C" "c_items C = x # xs"
      by (auto simp: extract_front_def split: option.splits list.splits)
    have p: "pop H csz cfg e w = Inr (Some x, set_cur ?k (Some (C\<lparr>c_items := xs\<rparr>)) w)"
      using fifo c by (simp add: pop_def Let_def extract_front_def)
    have "wl_inv Inv cfg e (set_cur ?k (Some (C\<lparr>c_items := xs\<rparr>)) w)"
      using inv c by (simp add: wl_inv_def wl_chunks_def)
    then show ?thesis
      using c by (simp add: p items_fifo_def)
  next
    case None
    then have cur_items: "items_of (chunk_of (cur ?n)) = []"
      by (auto simp: extract_front_def split: option.splits list.splits)
    from del_cur_spec [OF hs inv, of csz] obtain s' where
      del: "(case cur ?n of Some C \<Rightarrow> delChunk H csz (wl_heap w) C | None \<Rightarrow> Inr (wl_heap w)) = Inr s'"
      and I': "Inv s' (set (map c_addr (chunk_of (next ?n) @ Q w ?j)))"
      by blast
    let ?w0 = "w\<lparr>wl_heap := s'\<rparr>"
    have d': "distinct (map c_addr (chunk_of (next ?n) @ Q w ?j))"
      using d by (simp add: wl_chunks_def)
    show ?thesis
    proof (cases "Q w ?j")
      case (Cons C1 I)
      have pc: "popChunk cfg e ?w0 = (Some C1, ?w0\<lparr>Q := (Q w)(?j := I)\<rparr>)"
        using popChunk_local [of ?w0 cfg e C1 I] Cons by simp
      from ne Cons obtain x xs where C1: "c_items C1 = x # xs"
        by (cases "c_items C1") auto
      let ?w' = "set_cur ?k (Some (C1\<lparr>c_items := xs\<rparr>)) (set_cur ?k (Some C1) (?w0\<lparr>Q := (Q w)(?j := I)\<rparr>))"
      have p: "pop H csz cfg e w = Inr (Some x, ?w')"
        using fifo None del C1
        by (simp add: pop_def Let_def pc extract_front_def)
      have ch: "map c_addr (wl_chunks cfg e ?w') = map c_addr (C1 # chunk_of (next ?n) @ I)"
        by (simp add: wl_chunks_def set_cur_def)
      have "wl_inv Inv cfg e ?w'"
        unfolding wl_inv_def ch using d' I' ne oth Cons
        by (auto simp: set_cur_def insert_commute)
      moreover have "items_fifo cfg e w = x # xs @ items_of I @ items_of (chunk_of (next ?n))"
        using cur_items Cons C1 by (simp add: items_fifo_def)
      moreover have "items_fifo cfg e ?w' = xs @ items_of I @ items_of (chunk_of (next ?n))"
        by (simp add: items_fifo_def set_cur_def)
      ultimately show ?thesis by (simp add: p)
    next
      case Nil
      with oth have allempty: "\<forall>j. Q ?w0 j = []" by (metis heap_upd_proj(2))
      have pc: "popChunk cfg e ?w0 = (None, ?w0)"
        by (rule popChunk_empty [OF allempty])
      let ?w2 = "set_next ?k None (set_cur ?k (next ?n) ?w0)"
      have w2: "cur (data ?w2 ?k) = next ?n" "next (data ?w2 ?k) = None" "Q ?w2 = Q w" "wl_heap ?w2 = s'"
        by (simp_all add: set_next_def set_cur_def)
      have inv2: "wl_inv Inv cfg e ?w2"
        unfolding wl_inv_def wl_chunks_def w2 using d' I' ne oth Nil by simp
      show ?thesis
      proof (cases "case next ?n of None \<Rightarrow> None | Some C \<Rightarrow> extract_front C")
        case nn: None
        then have next_items: "items_of (chunk_of (next ?n)) = []"
          by (auto simp: extract_front_def split: option.splits list.splits)
        have p: "pop H csz cfg e w = Inr (None, ?w2)"
          using fifo None del nn
          by (auto simp: pop_def Let_def pc w2 split: option.splits)
        show ?thesis
          using inv2 cur_items next_items Nil by (simp add: p items_fifo_def w2)
      next
        case (Some r)
        then obtain C2 x xs where c2: "next ?n = Some C2" "c_items C2 = x # xs"
          by (auto simp: extract_front_def split: option.splits list.splits)
        let ?w' = "set_cur ?k (Some (C2\<lparr>c_items := xs\<rparr>)) ?w2"
        have p: "pop H csz cfg e w = Inr (Some x, ?w')"
          using fifo None del c2
          by (simp add: pop_def Let_def pc w2 extract_front_def)
        have w': "cur (data ?w' ?k) = Some (C2\<lparr>c_items := xs\<rparr>)" "next (data ?w' ?k) = None" "Q ?w' = Q w"
          "wl_heap ?w' = s'"
          by (simp_all add: w2)
        have "wl_inv Inv cfg e ?w'"
          unfolding wl_inv_def wl_chunks_def w' using d' I' ne oth Nil c2 by simp
        then show ?thesis
          using cur_items Nil c2 by (simp add: p items_fifo_def w')
      qed
    qed
  qed
qed

lemma pop_lifo:
  fixes w :: "('a, 'h) ChunkedMaster"
  assumes hs: "heap_spec H V Inv" and inv: "wl_inv Inv cfg e w" and lifo: "IsStack cfg"
  shows "\<exists>r w'. pop H csz cfg e w = Inr (r, w') \<and> wl_inv Inv cfg e w' \<and>
           (if items_lifo cfg e w = [] then r = None \<and> items_lifo cfg e w' = []
            else r = Some (last (items_lifo cfg e w)) \<and>
                 items_lifo cfg e w' = butlast (items_lifo cfg e w))"
proof -
  let ?k = "data_get cfg e"
  let ?j = "Q_get cfg e"
  let ?n = "data w ?k"
  from inv have d: "distinct (map c_addr (wl_chunks cfg e w))"
    and hI: "Inv (wl_heap w) (set (map c_addr (wl_chunks cfg e w)))"
    and ne: "\<forall>C \<in> set (Q w ?j). c_items C \<noteq> []" and oth: "\<forall>j. j \<noteq> ?j \<longrightarrow> Q w j = []"
    by (simp_all add: wl_inv_def)
  show ?thesis
  proof (cases "case next ?n of None \<Rightarrow> None | Some C \<Rightarrow> extract_back C")
    case (Some r)
    then obtain C where c: "next ?n = Some C" "c_items C \<noteq> []"
      by (auto simp: extract_back_def ring_empty_def split: option.splits if_splits)
    let ?w' = "set_next ?k (Some (C\<lparr>c_items := butlast (c_items C)\<rparr>)) w"
    have p: "pop H csz cfg e w = Inr (Some (last (c_items C)), ?w')"
      using lifo c by (simp add: pop_def Let_def extract_back_def ring_empty_def)
    have "wl_inv Inv cfg e ?w'"
      using inv c by (simp add: wl_inv_def wl_chunks_def)
    then show ?thesis
      using c by (simp add: p items_lifo_def butlast_append)
  next
    case None
    then have next_items: "items_of (chunk_of (next ?n)) = []"
      by (auto simp: extract_back_def ring_empty_def split: option.splits if_splits)
    from del_next_spec [OF hs inv, of csz] obtain s' where
      del: "(case next ?n of Some C \<Rightarrow> delChunk H csz (wl_heap w) C | None \<Rightarrow> Inr (wl_heap w)) = Inr s'"
      and I': "Inv s' (set (map c_addr (chunk_of (cur ?n) @ Q w ?j)))"
      by blast
    let ?w0 = "w\<lparr>wl_heap := s'\<rparr>"
    have d': "distinct (map c_addr (chunk_of (cur ?n) @ Q w ?j))"
      using d by (auto simp: wl_chunks_def)
    show ?thesis
    proof (cases "Q w ?j")
      case (Cons C1 I)
      have pc: "popChunk cfg e ?w0 = (Some C1, ?w0\<lparr>Q := (Q w)(?j := I)\<rparr>)"
        using popChunk_local [of ?w0 cfg e C1 I] Cons by simp
      from ne Cons have C1: "c_items C1 \<noteq> []" by simp
      let ?w' = "set_next ?k (Some (C1\<lparr>c_items := butlast (c_items C1)\<rparr>)) (?w0\<lparr>Q := (Q w)(?j := I)\<rparr>)"
      have p: "pop H csz cfg e w = Inr (Some (last (c_items C1)), ?w')"
        using lifo None del C1
        by (simp add: pop_def Let_def pc extract_back_def ring_empty_def)
      have ch: "map c_addr (wl_chunks cfg e ?w') = map c_addr (chunk_of (cur ?n) @ C1 # I)"
        by (simp add: wl_chunks_def set_next_def)
      have "wl_inv Inv cfg e ?w'"
        unfolding wl_inv_def ch using d' I' ne oth Cons
        by (auto simp: set_next_def)
      moreover have "items_lifo cfg e w = items_of (rev I) @ c_items C1"
        using next_items Cons by (simp add: items_lifo_def)
      moreover have "items_lifo cfg e ?w' = items_of (rev I) @ butlast (c_items C1)"
        by (simp add: items_lifo_def set_next_def)
      ultimately show ?thesis using C1 by (simp add: p butlast_append)
    next
      case Nil
      with oth have allempty: "\<forall>j. Q ?w0 j = []" by (metis heap_upd_proj(2))
      have pc: "popChunk cfg e ?w0 = (None, ?w0)"
        by (rule popChunk_empty [OF allempty])
      let ?w' = "set_next ?k None ?w0"
      have p: "pop H csz cfg e w = Inr (None, ?w')"
        using lifo None del
        by (simp add: pop_def Let_def pc)
      have w': "cur (data ?w' ?k) = cur ?n" "next (data ?w' ?k) = None" "Q ?w' = Q w" "wl_heap ?w' = s'"
        by (simp_all add: set_next_def)
      have "wl_inv Inv cfg e ?w'"
        unfolding wl_inv_def wl_chunks_def w' using d' I' ne oth Nil by simp
      then show ?thesis
        using next_items Nil by (simp add: p items_lifo_def w')
    qed
  qed
qed

lemma push_range_inv:
  fixes w :: "('a, 'h) ChunkedMaster"
  assumes hs: "heap_spec H V Inv" and V: "V csz" and cs: "1 \<le> ChunkSize cfg"
  shows "wl_inv Inv cfg e w \<Longrightarrow> push_range H csz cfg e w vs = Inr w' \<Longrightarrow>
         wl_inv Inv cfg e w' \<and>
         (QT cfg = ConExtLinkedQueue \<longrightarrow> items_fifo cfg e w' = items_fifo cfg e w @ vs) \<and>
         (QT cfg = ConExtLinkedStack \<longrightarrow> items_lifo cfg e w' = items_lifo cfg e w @ vs)"
proof (induction vs arbitrary: w)
  case Nil
  then show ?case by simp
next
  case (Cons v vs)
  from Cons.prems(2) obtain w1 where e1: "emplacei H csz cfg e w v = Inr w1"
    and r: "push_range H csz cfg e w1 vs = Inr w'"
    by (auto split: sum.splits)
  from emplacei_inv [OF hs V cs Cons.prems(1) e1] Cons.IH [OF _ r]
  show ?case by auto
qed

lemma drain_fifo:
  fixes w :: "('a, 'h) ChunkedMaster"
  assumes hs: "heap_spec H V Inv" and fifo: "\<not> IsStack cfg"
  shows "wl_inv Inv cfg e w \<Longrightarrow> items_fifo cfg e w = xs \<Longrightarrow>
         \<exists>w'. pop_until_empty H csz cfg e (Suc (length xs)) w = Some (Inr (xs, w'))"
proof (induction xs arbitrary: w)
  case Nil
  from pop_fifo [OF hs Nil(1) fifo, of csz] Nil(2)
  show ?case by auto
next
  case (Cons x xs)
  from pop_fifo [OF hs Cons.prems(1) fifo, of csz] Cons.prems(2)
  obtain w1 where p: "pop H csz cfg e w = Inr (Some x, w1)" and i1: "wl_inv Inv cfg e w1"
    and it: "items_fifo cfg e w1 = xs"
    by auto
  from Cons.IH [OF i1 it] obtain w' where
    "pop_until_empty H csz cfg e (Suc (length xs)) w1 = Some (Inr (xs, w'))" by blast
  with p show ?case by simp
qed

lemma drain_lifo:
  fixes w :: "('a, 'h) ChunkedMaster"
  assumes hs: "heap_spec H V Inv" and lifo: "IsStack cfg"
  shows "wl_inv Inv cfg e w \<Longrightarrow> items_lifo cfg e w = xs \<Longrightarrow>
         \<exists>w'. pop_until_empty H csz cfg e (Suc (length xs)) w = Some (Inr (rev xs, w'))"
proof (induction xs arbitrary: w rule: rev_induct)
  case Nil
  from pop_lifo [OF hs Nil(1) lifo, of csz] Nil(2)
  show ?case by auto
next
  case (snoc x xs)
  from pop_lifo [OF hs snoc.prems(1) lifo, of csz] snoc.prems(2)
  obtain w1 where p: "pop H csz cfg e w = Inr (Some x, w1)" and i1: "wl_inv Inv cfg e w1"
    and it: "items_lifo cfg e w1 = xs"
    by auto
  from snoc.IH [OF i1 it] obtain w' where
    "pop_until_empty H csz cfg e (Suc (length xs)) w1 = Some (Inr (rev xs, w'))" by blast
  with p show ?case by simp
qed

lemma wl_inv_init: "Inv s0 {} \<Longrightarrow> wl_inv Inv cfg e (ChunkedMaster_init s0)"
  by (simp add: wl_inv_def wl_chunks_def ChunkedMaster_init_def)

lemma items_init:
  "items_fifo cfg e (ChunkedMaster_init s0) = []" "items_lifo cfg e (ChunkedMaster_init s0) = []"
  by (simp_all add: items_fifo_def items_lifo_def ChunkedMaster_init_def)

lemma heap_spec_SizedAlloc:
  "heap_spec (SizedAlloc tid) valid_size (thread_inv tid (fl_inv (bump_inv 2097152)))"
proof -
  have "heap_spec (LocalAlloc (of_nat 2097152)) valid_size (fl_inv (bump_inv 2097152))"
    unfolding LocalAlloc_def by (rule heap_spec_FreeListHeap [OF fresh_spec_bump]) simp
  from heap_spec_ThreadAwarePrivateHeap [OF this, of tid]
  show ?thesis by (simp add: SizedAlloc_def hugePageSize_of_nat)
qed

lemma sa_s0_inv: "thread_inv 0 (fl_inv (bump_inv 2097152)) sa_s0 {}"
proof -
  have pg: "pages_ok 2097152 (future_pages sys_pages2)"
    by (simp add: future_pages_def sys_pages2_def page_wf_def apart_def aligned8_def)
  have "fl_inv (bump_inv 2097152) (LocalAlloc_init (\<lambda>_. 0) (\<lambda>_. 0), sys_pages2) {}"
    unfolding LocalAlloc_init_def
    by (rule fl_inv_init [where SInv = "bump_inv 2097152"]) (rule bump_inv_init [OF pg])
  then show ?thesis by (simp add: thread_inv_def sa_s0_def)
qed

lemmas wl_eval = emplacei_def Let_def emplace_back_def ring_full_def mkChunk_def pushChunk_def
  set_next_def data_get_def Q_get_def QT_push_def ChunkedMaster_init_def env1_def
  SizedAlloc_def ThreadAwarePrivateHeap_def la_eval hugePageSize_def sa_s0_def

text \<open>
  Claim C1.  One thread uses a chunked worklist with a chunk size of at least 1,
  over a heap that meets \<open>heap_spec\<close> (as \<open>SizedAlloc\<close> does), starting from the
  empty worklist.  When the pushes of the values \<open>xs\<close> have all returned, calling
  \<open>pop()\<close> until it returns empty returns exactly \<open>xs\<close> in the order of the pushes
  under the FIFO discipline (a queue of chunks, \<open>IsStack = false\<close>: \<open>ChunkedFIFO\<close>,
  \<open>dChunkedFIFO\<close>), and \<open>xs\<close> in reverse under the LIFO discipline (a stack of chunks,
  \<open>IsStack = true\<close>: \<open>ChunkedLIFO\<close>, \<open>dChunkedLIFO\<close>); the loop ends with the empty
  result after \<open>length xs + 1\<close> calls and no call fails.  With a chunk size of 4 and
  the pushes 1 to 10, the LIFO worklist returns 10, 9, ..., 1.
\<close>

theorem worklist_pop_order:
  fixes xs :: "'a list" and H :: "'h heap"
  assumes hs: "heap_spec H V Inv" and i0: "Inv s0 {}" and V: "V csz" and cs: "1 \<le> ChunkSize cfg"
    and push: "push_range H csz cfg e (ChunkedMaster_init s0) xs = Inr w"
  shows "(QT cfg = ConExtLinkedQueue \<and> \<not> IsStack cfg \<longrightarrow>
            (\<exists>w'. pop_until_empty H csz cfg e (Suc (length xs)) w = Some (Inr (xs, w')))) \<and>
         (QT cfg = ConExtLinkedStack \<and> IsStack cfg \<longrightarrow>
            (\<exists>w'. pop_until_empty H csz cfg e (Suc (length xs)) w = Some (Inr (rev xs, w'))))"
proof -
  have "wl_inv Inv cfg e (ChunkedMaster_init s0 :: ('a, 'h) ChunkedMaster)"
    by (rule wl_inv_init [where Inv = Inv]) (rule i0)
  from push_range_inv [OF hs V cs this push]
  have inv: "wl_inv Inv cfg e w"
    and f: "QT cfg = ConExtLinkedQueue \<Longrightarrow> items_fifo cfg e w = xs"
    and l: "QT cfg = ConExtLinkedStack \<Longrightarrow> items_lifo cfg e w = xs"
    by (simp_all add: items_init)
  show ?thesis
    using drain_fifo [OF hs _ inv f] drain_lifo [OF hs _ inv l] by blast
qed

theorem worklist_pop_order_witness:
  "heap_spec (SizedAlloc 0) valid_size (thread_inv 0 (fl_inv (bump_inv 2097152))) \<and>
   thread_inv 0 (fl_inv (bump_inv 2097152)) sa_s0 {} \<and> valid_size 64 \<and>
   (\<exists>w w'. push_range (SizedAlloc 0) 64 (ChunkedLIFO 4 True) env1 (ChunkedMaster_init sa_s0)
              [1, 2, 3, 4, 5, 6, 7, 8, 9, 10 :: nat] = Inr w \<and>
           pop_until_empty (SizedAlloc 0) 64 (ChunkedLIFO 4 True) env1 11 w =
             Some (Inr ([10, 9, 8, 7, 6, 5, 4, 3, 2, 1], w'))) \<and>
   (\<exists>w w'. push_range (SizedAlloc 0) 64 (ChunkedFIFO 4 True) env1 (ChunkedMaster_init sa_s0)
              [1, 2, 3, 4, 5, 6, 7, 8, 9, 10 :: nat] = Inr w \<and>
           pop_until_empty (SizedAlloc 0) 64 (ChunkedFIFO 4 True) env1 11 w =
             Some (Inr ([1, 2, 3, 4, 5, 6, 7, 8, 9, 10], w')))"
proof -
  let ?xs = "[1, 2, 3, 4, 5, 6, 7, 8, 9, 10 :: nat]"
  note hs = heap_spec_SizedAlloc [of 0]
  have v: "valid_size 64" by (simp add: valid_size_def)
  have csl: "1 \<le> ChunkSize (ChunkedLIFO 4 True)" and csf: "1 \<le> ChunkSize (ChunkedFIFO 4 True)"
    by (simp_all add: ChunkedLIFO_def ChunkedFIFO_def)
  have "is_result (push_range (SizedAlloc 0) 64 (ChunkedLIFO 4 True) env1 (ChunkedMaster_init sa_s0) ?xs)"
    by (simp add: is_result_def wl_eval ChunkedLIFO_def)
  then obtain wl where pl: "push_range (SizedAlloc 0) 64 (ChunkedLIFO 4 True) env1 (ChunkedMaster_init sa_s0) ?xs = Inr wl"
    by (auto simp: is_result_def split: sum.splits)
  have "is_result (push_range (SizedAlloc 0) 64 (ChunkedFIFO 4 True) env1 (ChunkedMaster_init sa_s0) ?xs)"
    by (simp add: is_result_def wl_eval ChunkedFIFO_def)
  then obtain wf where pf: "push_range (SizedAlloc 0) 64 (ChunkedFIFO 4 True) env1 (ChunkedMaster_init sa_s0) ?xs = Inr wf"
    by (auto simp: is_result_def split: sum.splits)
  have ql: "QT (ChunkedLIFO 4 True) = ConExtLinkedStack \<and> IsStack (ChunkedLIFO 4 True)"
    and qf: "QT (ChunkedFIFO 4 True) = ConExtLinkedQueue \<and> \<not> IsStack (ChunkedFIFO 4 True)"
    by (simp_all add: ChunkedLIFO_def ChunkedFIFO_def)
  from worklist_pop_order [OF hs sa_s0_inv v csl pl, THEN conjunct2, rule_format, OF ql]
  have l: "\<exists>w'. pop_until_empty (SizedAlloc 0) 64 (ChunkedLIFO 4 True) env1 11 wl =
             Some (Inr ([10, 9, 8, 7, 6, 5, 4, 3, 2, 1], w'))"
    by (simp add: eval_nat_numeral del: pop_until_empty.simps)
  from worklist_pop_order [OF hs sa_s0_inv v csf pf, THEN conjunct1, rule_format, OF qf]
  have f: "\<exists>w'. pop_until_empty (SizedAlloc 0) 64 (ChunkedFIFO 4 True) env1 11 wf =
             Some (Inr (?xs, w'))"
    by (simp add: eval_nat_numeral del: pop_until_empty.simps)
  from hs sa_s0_inv v pl l pf f show ?thesis by blast
qed

end
